theory Spec2Isabelle
  imports Main "HOL-Library.Word"
begin

unbundle bit_operations_syntax

section \<open>The Base64 codec of src/sandstorm/util.c++\<close>

text \<open>
  The codec is the libb64 pair of resumable state machines plus the two one-shot drivers
  \<open>base64Encode\<close> and \<open>base64Decode\<close>.

  Conventions of the embedding.
  \<^item> A C \<open>char\<close> is an \<open>8 word\<close>. Where the source compares a \<open>char\<close> or converts it to
    \<open>int\<close>, the word is read as two's complement (\<open>sint\<close>): \<open>char\<close> is signed on the
    x86-64 Linux targets of the program, and the decoder's \<open>fragment < 0\<close> test relies on it.
    Integer promotion followed by a mask of at most 8 bits and a store back into a
    \<open>char\<close> is the corresponding operation on the word.
  \<^item> A C \<open>int\<close> is a \<open>32 word\<close> read as two's complement, and \<open>++\<close> on it wraps, as in
    the compiled program. A \<open>size_t\<close> is a natural number below \<open>2 ^ 64\<close> and a \<open>uint\<close>
    one below \<open>2 ^ 32\<close>, with the arithmetic reduced accordingly. Converting a
    \<open>size_t\<close> or a difference of pointers to \<open>int\<close> keeps the low 32 bits; converting an
    \<open>int\<close> to \<open>size_t\<close> extends its sign.
  \<^item> A pointer is the list of the bytes of the array it addresses. The loops consume the
    first \<open>length_in\<close> of them from the front; a \<open>length_in\<close> that is negative or larger
    than the array makes them read outside it.
  \<^item> The characters written through \<open>*codechar++\<close> by the encoder are returned as a
    list, in the order written, next to the \<open>int\<close> the function returns.
  \<^item> The decoder reads and overwrites its output buffer in place, so the buffer is a list
    of fixed length with a write index, and every load and store checks the index. An
    access outside an array or outside a table is the error \<open>OutOfBounds\<close>.
  \<^item> \<open>KJ_ASSERT\<close> failing is the error \<open>AssertionFailed\<close>.
  \<^item> The field \<open>step\<close> of the decoder's state is \<open>dstep\<close> here, the encoder's state
    having a field \<open>step\<close> already.
\<close>

type_synonym cchar = "8 word"

type_synonym cint = "32 word"

datatype error = OutOfBounds | AssertionFailed

text \<open>A string literal of the source as the bytes of its characters.\<close>

definition cstr :: "string \<Rightarrow> cchar list" where
  "cstr s = map of_char s"

abbreviation newline :: cchar where
  "newline \<equiv> 10"

abbreviation equals_sign :: cchar where
  "equals_sign \<equiv> 61"

text \<open>The result of an arithmetic operation on \<open>size_t\<close> and on \<open>uint\<close>.\<close>

definition size_t :: "nat \<Rightarrow> nat" where
  "size_t n = n mod 2 ^ 64"

definition c_uint :: "nat \<Rightarrow> nat" where
  "c_uint n = n mod 2 ^ 32"

text \<open>
  The conversions between sizes and \<open>int\<close>: the implicit one where a \<open>size_t\<close> is passed
  for an \<open>int length_in\<close> or a difference of pointers is returned as \<open>int\<close>, and the one
  where an \<open>int\<close> is added to or assigned to a \<open>size_t\<close>.
\<close>

definition int_of_size :: "nat \<Rightarrow> cint" where
  "int_of_size n = word_of_nat n"

definition size_of_int :: "cint \<Rightarrow> nat" where
  "size_of_int k = nat (sint k mod 2 ^ 64)"

subsection \<open>Encoder\<close>

datatype base64_encodestep = step_A | step_B | step_C

record base64_encodestate =
  step :: base64_encodestep
  result :: cchar
  stepcount :: cint

definition CHARS_PER_LINE :: int where
  "CHARS_PER_LINE = 72"

definition base64_init_encodestate :: base64_encodestate where
  "base64_init_encodestate = \<lparr>step = step_A, result = 0, stepcount = 0\<rparr>"

definition encoding :: "cchar list" where
  "encoding = cstr ''ABCDEFGHIJKLMNOPQRSTUVWXYZabcdefghijklmnopqrstuvwxyz0123456789+/''"

text \<open>
  \<open>if (value_in > 63) return '='; return encoding[(int)value_in];\<close>
  A negative \<open>value_in\<close> passes the test and indexes the literal below its start.
\<close>

definition base64_encode_value :: "cchar \<Rightarrow> error + cchar" where
  "base64_encode_value value_in =
     (if sint value_in > 63 then Inr equals_sign
      else if sint value_in < 0 then Inl OutOfBounds
      else Inr (encoding ! nat (sint value_in)))"

text \<open>
  The body of \<open>base64_encode_block\<close>: a \<open>switch\<close> on the step that jumps into a
  \<open>while (1)\<close> loop. One equation per \<open>case\<close> label; falling through to the next label is
  the recursive call with the next step. The first equation is the three
  \<open>if (plainchar == plaintextend)\<close> exits, which store \<open>result\<close> and the step reached.
  The list is the bytes from \<open>plaintext_in\<close> up to \<open>plaintextend\<close>.
\<close>

fun encode_loop ::
  "bool \<Rightarrow> base64_encodestep \<Rightarrow> cchar list \<Rightarrow> cchar \<Rightarrow> cint
    \<Rightarrow> error + (cchar list \<times> base64_encodestate)" where
  "encode_loop breakLines st [] res cnt =
     Inr ([], \<lparr>step = st, result = res, stepcount = cnt\<rparr>)"
| "encode_loop breakLines step_A (fragment # plain) res cnt =
     (case base64_encode_value (drop_bit 2 (fragment AND 0xfc)) of
        Inl e \<Rightarrow> Inl e
      | Inr c \<Rightarrow>
         (case encode_loop breakLines step_B plain (push_bit 4 (fragment AND 0x03)) cnt of
            Inl e \<Rightarrow> Inl e
          | Inr (code, s) \<Rightarrow> Inr (c # code, s)))"
| "encode_loop breakLines step_B (fragment # plain) res cnt =
     (case base64_encode_value (res OR drop_bit 4 (fragment AND 0xf0)) of
        Inl e \<Rightarrow> Inl e
      | Inr c \<Rightarrow>
         (case encode_loop breakLines step_C plain (push_bit 2 (fragment AND 0x0f)) cnt of
            Inl e \<Rightarrow> Inl e
          | Inr (code, s) \<Rightarrow> Inr (c # code, s)))"
| "encode_loop breakLines step_C (fragment # plain) res cnt =
     (case base64_encode_value (res OR drop_bit 6 (fragment AND 0xc0)) of
        Inl e \<Rightarrow> Inl e
      | Inr c1 \<Rightarrow>
         (case base64_encode_value (drop_bit 0 (fragment AND 0x3f)) of
            Inl e \<Rightarrow> Inl e
          | Inr c2 \<Rightarrow>
             (let brk = (breakLines \<and> sint (cnt + 1) = CHARS_PER_LINE div 4) in
              case encode_loop breakLines step_A plain (drop_bit 0 (fragment AND 0x3f))
                     (if brk then 0 else cnt + 1) of
                Inl e \<Rightarrow> Inl e
              | Inr (code, s) \<Rightarrow>
                  Inr (c1 # c2 # (if brk then [newline] else []) @ code, s))))"

text \<open>
  \<open>base64_encode_block\<close> on the array at \<open>plaintext_in\<close> with the \<open>int length_in\<close>. With
  a negative \<open>length_in\<close> the end pointer lies before the start and is never met, and with
  one larger than the array the loop runs past its end: either way it reads outside the
  array. The function returns \<open>codechar - code_out\<close> as an \<open>int\<close>.
\<close>

definition base64_encode_block ::
  "cchar list \<Rightarrow> cint \<Rightarrow> base64_encodestate \<Rightarrow> bool
    \<Rightarrow> error + (cint \<times> cchar list \<times> base64_encodestate)" where
  "base64_encode_block plaintext_in length_in state_in breakLines =
     (if sint length_in < 0 \<or> int (length plaintext_in) < sint length_in then Inl OutOfBounds
      else
        (case encode_loop breakLines (step state_in) (take (nat (sint length_in)) plaintext_in)
                (result state_in) (stepcount state_in) of
           Inl e \<Rightarrow> Inl e
         | Inr (code, s) \<Rightarrow> Inr (int_of_size (length code), code, s)))"

definition base64_encode_blockend ::
  "base64_encodestate \<Rightarrow> bool \<Rightarrow> error + (cint \<times> cchar list \<times> base64_encodestate)" where
  "base64_encode_blockend state_in breakLines =
     (case
        (case step state_in of
           step_B \<Rightarrow>
             (case base64_encode_value (result state_in) of
                Inl e \<Rightarrow> Inl e
              | Inr c \<Rightarrow>
                  Inr ([c, equals_sign, equals_sign],
                       state_in\<lparr>stepcount := stepcount state_in + 1\<rparr>))
         | step_C \<Rightarrow>
             (case base64_encode_value (result state_in) of
                Inl e \<Rightarrow> Inl e
              | Inr c \<Rightarrow>
                  Inr ([c, equals_sign], state_in\<lparr>stepcount := stepcount state_in + 1\<rparr>))
         | step_A \<Rightarrow> Inr ([], state_in))
      of
        Inl e \<Rightarrow> Inl e
      | Inr (code, s) \<Rightarrow>
          (let code = code @ (if breakLines \<and> sint (stepcount s) > 0 then [newline] else [])
           in Inr (int_of_size (length code), code, s)))"

text \<open>
  The size \<open>base64Encode\<close> computes for its output before encoding: \<open>numChars\<close>,
  with one more character for every line, also a partial one, when lines are broken.
  \<open>numChars\<close> is a \<open>size_t\<close> and \<open>lineCount\<close> a \<open>uint\<close>.
\<close>

definition numChars :: "nat \<Rightarrow> bool \<Rightarrow> nat" where
  "numChars size_in breakLines =
     (let n = size_t (size_t (size_in + 2) div 3 * 4) in
      if breakLines then
        (let lineCount = c_uint (n div nat CHARS_PER_LINE);
             lineCount = (if n mod nat CHARS_PER_LINE > 0 then c_uint (lineCount + 1)
                          else lineCount)
         in size_t (n + lineCount))
      else n)"

text \<open>
  \<open>kj::heapString(n)\<close>: a fresh string of \<open>n\<close> characters. Its initial contents are not
  specified by the source; the model fills it with zeros.
\<close>

definition heapString :: "nat \<Rightarrow> cchar list" where
  "heapString n = replicate n 0"

text \<open>
  The characters a call writes through \<open>*codechar++\<close>, put into the output from the
  position the call was given. A call that writes nothing touches nothing.
\<close>

definition write_at :: "cchar list \<Rightarrow> int \<Rightarrow> cchar list \<Rightarrow> error + cchar list" where
  "write_at output pos code =
     (if code = [] then Inr output
      else if 0 \<le> pos \<and> nat pos + length code \<le> length output
      then Inr (take (nat pos) output @ code @ drop (nat pos + length code) output)
      else Inl OutOfBounds)"

text \<open>
  The one-shot driver. The block writes from the start of \<open>output\<close>; then
  \<open>c += cnt; total += cnt\<close> with the \<open>int cnt\<close> it returned, \<open>c\<close> a pointer and
  \<open>total\<close> a \<open>size_t\<close>; \<open>base64_encode_blockend\<close> writes from \<open>c\<close>; and
  \<open>KJ_ASSERT(total == output.size())\<close> fails when the two differ.
\<close>

definition base64Encode :: "cchar list \<Rightarrow> bool \<Rightarrow> error + cchar list" where
  "base64Encode input breakLines =
     (let output = heapString (numChars (length input) breakLines) in
      case base64_encode_block input (int_of_size (length input)) base64_init_encodestate
             breakLines of
        Inl e \<Rightarrow> Inl e
      | Inr (cnt1, code1, s) \<Rightarrow>
         (case write_at output 0 code1 of
            Inl e \<Rightarrow> Inl e
          | Inr output1 \<Rightarrow>
             (case base64_encode_blockend s breakLines of
                Inl e \<Rightarrow> Inl e
              | Inr (cnt2, code2, s') \<Rightarrow>
                 (case write_at output1 (sint cnt1) code2 of
                    Inl e \<Rightarrow> Inl e
                  | Inr output2 \<Rightarrow>
                     (let total = size_t (size_t (0 + size_of_int cnt1) + size_of_int cnt2) in
                      if total = length output then Inr output2
                      else Inl AssertionFailed)))))"



subsection \<open>Decoder\<close>

datatype base64_decodestep = step_a | step_b | step_c | step_d

record base64_decodestate =
  dstep :: base64_decodestep
  plainchar :: cchar

text \<open>
  The table \<open>decoding\<close>, indexed by the character minus 43 (the code of \<open>+\<close>): the
  entries for \<open>+\<close> to \<open>A\<close>'s predecessor, for the upper-case letters, for the six
  characters between \<open>Z\<close> and \<open>a\<close>, and for the lower-case letters.
\<close>

definition decoding :: "cchar list" where
  "decoding =
    [62, - 1, - 1, - 1, 63, 52, 53, 54, 55, 56, 57, 58, 59, 60, 61,
     - 1, - 1, - 1, - 2, - 1, - 1, - 1] @
    [0, 1, 2, 3, 4, 5, 6, 7, 8, 9, 10, 11, 12] @
    [13, 14, 15, 16, 17, 18, 19, 20, 21, 22, 23, 24, 25] @
    [- 1, - 1, - 1, - 1, - 1, - 1] @
    [26, 27, 28, 29, 30, 31, 32, 33, 34, 35, 36, 37, 38] @
    [39, 40, 41, 42, 43, 44, 45, 46, 47, 48, 49, 50, 51]"

definition decoding_size :: cchar where
  "decoding_size = word_of_nat (length decoding)"

text \<open>
  \<open>value_in -= 43; if (value_in < 0 || value_in > decoding_size) return -1;
  return decoding[(int)value_in];\<close>
  The subtraction is on \<open>char\<close> and wraps; the comparisons are signed. The table access
  checks the index against the table's length.
\<close>

definition base64_decode_value :: "cchar \<Rightarrow> error + int" where
  "base64_decode_value value_in =
     (let value_in = value_in - 43 in
      if sint value_in < 0 \<or> sint value_in > sint decoding_size then Inr (- 1)
      else if nat (sint value_in) < length decoding
           then Inr (sint (decoding ! nat (sint value_in)))
           else Inl OutOfBounds)"

definition base64_init_decodestate :: base64_decodestate where
  "base64_init_decodestate = \<lparr>dstep = step_a, plainchar = 0\<rparr>"

text \<open>Checked access to the output buffer: \<open>*plainchar\<close> read and \<open>*plainchar = v\<close>.\<close>

definition load :: "cchar list \<Rightarrow> nat \<Rightarrow> error + cchar" where
  "load buf i = (if i < length buf then Inr (buf ! i) else Inl OutOfBounds)"

definition store :: "cchar list \<Rightarrow> nat \<Rightarrow> cchar \<Rightarrow> error + cchar list" where
  "store buf i v = (if i < length buf then Inr (buf[i := v]) else Inl OutOfBounds)"

text \<open>\<open>*plainchar |= v\<close>: a load and a store at the same index.\<close>

definition or_store :: "cchar list \<Rightarrow> nat \<Rightarrow> cchar \<Rightarrow> error + cchar list" where
  "or_store buf i v =
     (case load buf i of Inl e \<Rightarrow> Inl e | Inr old \<Rightarrow> store buf i (old OR v))"

text \<open>
  What each \<open>case\<close> label of \<open>base64_decode_block\<close> does with a fragment that passed
  its \<open>while (fragment < 0)\<close> test: the stores through \<open>plainchar\<close>, the new value of
  \<open>plainchar\<close> (an index into the buffer) and the label control falls through to.
\<close>

fun decode_fragment ::
  "base64_decodestep \<Rightarrow> cchar \<Rightarrow> cchar list \<Rightarrow> nat
    \<Rightarrow> error + (base64_decodestep \<times> cchar list \<times> nat)" where
  "decode_fragment step_a fragment buf p =
     (case store buf p (push_bit 2 (fragment AND 0x3f)) of
        Inl e \<Rightarrow> Inl e
      | Inr buf1 \<Rightarrow> Inr (step_b, buf1, p))"
| "decode_fragment step_b fragment buf p =
     (case or_store buf p (drop_bit 4 (fragment AND 0x30)) of
        Inl e \<Rightarrow> Inl e
      | Inr buf1 \<Rightarrow>
         (case store buf1 (p + 1) (push_bit 4 (fragment AND 0x0f)) of
            Inl e \<Rightarrow> Inl e
          | Inr buf2 \<Rightarrow> Inr (step_c, buf2, p + 1)))"
| "decode_fragment step_c fragment buf p =
     (case or_store buf p (drop_bit 2 (fragment AND 0x3c)) of
        Inl e \<Rightarrow> Inl e
      | Inr buf1 \<Rightarrow>
         (case store buf1 (p + 1) (push_bit 6 (fragment AND 0x03)) of
            Inl e \<Rightarrow> Inl e
          | Inr buf2 \<Rightarrow> Inr (step_d, buf2, p + 1)))"
| "decode_fragment step_d fragment buf p =
     (case or_store buf p (fragment AND 0x3f) of
        Inl e \<Rightarrow> Inl e
      | Inr buf1 \<Rightarrow> Inr (step_a, buf1, p + 1))"

text \<open>
  The loop of \<open>base64_decode_block\<close>. Each label starts with the same \<open>do ... while\<close>:
  at the end of the input it stores the step and \<open>*plainchar\<close> into the state and returns
  \<open>plainchar - plaintext_out\<close>; otherwise it decodes the next character and repeats while
  the fragment is negative. The list is the characters from \<open>code_in\<close> up to
  \<open>code_in + length_in\<close>.
\<close>

fun decode_loop ::
  "base64_decodestep \<Rightarrow> cchar list \<Rightarrow> cchar list \<Rightarrow> nat
    \<Rightarrow> error + (nat \<times> cchar list \<times> base64_decodestate)" where
  "decode_loop st [] buf p =
     (case load buf p of
        Inl e \<Rightarrow> Inl e
      | Inr v \<Rightarrow> Inr (p, buf, \<lparr>dstep = st, plainchar = v\<rparr>))"
| "decode_loop st (c # code) buf p =
     (case base64_decode_value c of
        Inl e \<Rightarrow> Inl e
      | Inr v \<Rightarrow>
         (let fragment = (word_of_int v :: cchar) in
          if sint fragment < 0 then decode_loop st code buf p
          else
            (case decode_fragment st fragment buf p of
               Inl e \<Rightarrow> Inl e
             | Inr (st', buf', p') \<Rightarrow> decode_loop st' code buf' p')))"

text \<open>
  \<open>*plainchar = state_in->plainchar;\<close> and then the \<open>switch\<close> into the loop, on the
  array at \<open>code_in\<close> with the \<open>int length_in\<close>: as in the encoder, a negative
  \<open>length_in\<close> or one larger than the array makes the loop read outside the array. The
  function returns \<open>plainchar - plaintext_out\<close> as an \<open>int\<close>.
\<close>

definition base64_decode_block ::
  "cchar list \<Rightarrow> cint \<Rightarrow> cchar list \<Rightarrow> base64_decodestate
    \<Rightarrow> error + (cint \<times> cchar list \<times> base64_decodestate)" where
  "base64_decode_block code_in length_in plaintext_out state_in =
     (case store plaintext_out 0 (plainchar state_in) of
        Inl e \<Rightarrow> Inl e
      | Inr buf \<Rightarrow>
          if sint length_in < 0 \<or> int (length code_in) < sint length_in then Inl OutOfBounds
          else
            (case decode_loop (dstep state_in) (take (nat (sint length_in)) code_in) buf 0 of
               Inl e \<Rightarrow> Inl e
             | Inr (n, buf', s) \<Rightarrow> Inr (int_of_size n, buf', s)))"

text \<open>
  \<open>kj::heapArray<byte>(n)\<close>: a fresh buffer of \<open>n\<close> bytes. Its initial contents are not
  specified by the source; the model fills it with zeros (the decoder overwrites every
  byte it returns).
\<close>

definition heapArray :: "nat \<Rightarrow> cchar list" where
  "heapArray n = replicate n 0"

text \<open>
  The one-shot driver: a buffer of \<open>(input.size() * 6 + 7) / 8\<close> bytes, the block on the
  whole input, the \<open>int\<close> it returns taken as the \<open>size_t n\<close>, and the first \<open>n\<close> bytes
  of the buffer returned.
\<close>

definition base64Decode :: "cchar list \<Rightarrow> error + cchar list" where
  "base64Decode input =
     (let output = heapArray (size_t (size_t (length input * 6) + 7) div 8) in
      case base64_decode_block input (int_of_size (length input)) output
             base64_init_decodestate of
        Inl e \<Rightarrow> Inl e
      | Inr (cnt, output', state) \<Rightarrow>
          (let n = size_of_int cnt in
           Inr (if n < length output' then take n output' else output')))"

text \<open>
  A character that maps to a value of six bits: its table entry is not one of the
  negative markers, and it has a table entry.
\<close>

definition valid_char :: "cchar \<Rightarrow> bool" where
  "valid_char c = (case base64_decode_value c of Inl e \<Rightarrow> False | Inr v \<Rightarrow> 0 \<le> v)"

subsection \<open>The decoder when the accesses next to its arrays go through\<close>

text \<open>
  In the functions above an access outside an array ends the run with \<open>OutOfBounds\<close>. In
  the compiled program it does not: \<open>decoding[80]\<close>, the one access outside the table that
  the test of \<open>base64_decode_value\<close> lets through, reads the byte that follows the table
  in memory, and \<open>plaintext_out[size]\<close> is the byte that follows the output buffer. The
  definitions of this subsection are the same functions with these two bytes present, so
  that the run goes on and returns a value. What follows the table is not fixed by the
  source and is the parameter \<open>after_table\<close>; the byte after the buffer starts as 0.
\<close>

definition decode_value_run :: "cchar \<Rightarrow> cchar \<Rightarrow> int" where
  "decode_value_run after_table value_in =
     (case base64_decode_value value_in of
        Inl e \<Rightarrow> sint after_table
      | Inr v \<Rightarrow> v)"

fun decode_loop_run ::
  "cchar \<Rightarrow> base64_decodestep \<Rightarrow> cchar list \<Rightarrow> cchar list \<Rightarrow> nat
    \<Rightarrow> error + (nat \<times> cchar list \<times> base64_decodestate)" where
  "decode_loop_run after_table st [] buf p =
     (case load buf p of
        Inl e \<Rightarrow> Inl e
      | Inr v \<Rightarrow> Inr (p, buf, \<lparr>dstep = st, plainchar = v\<rparr>))"
| "decode_loop_run after_table st (c # code) buf p =
     (let fragment = (word_of_int (decode_value_run after_table c) :: cchar) in
      if sint fragment < 0 then decode_loop_run after_table st code buf p
      else
        (case decode_fragment st fragment buf p of
           Inl e \<Rightarrow> Inl e
         | Inr (st', buf', p') \<Rightarrow> decode_loop_run after_table st' code buf' p'))"

definition base64_decode_block_run ::
  "cchar \<Rightarrow> cchar list \<Rightarrow> cint \<Rightarrow> cchar list \<Rightarrow> base64_decodestate
    \<Rightarrow> error + (cint \<times> cchar list \<times> base64_decodestate)" where
  "base64_decode_block_run after_table code_in length_in plaintext_out state_in =
     (case store plaintext_out 0 (plainchar state_in) of
        Inl e \<Rightarrow> Inl e
      | Inr buf \<Rightarrow>
          if sint length_in < 0 \<or> int (length code_in) < sint length_in then Inl OutOfBounds
          else
            (case decode_loop_run after_table (dstep state_in)
                    (take (nat (sint length_in)) code_in) buf 0 of
               Inl e \<Rightarrow> Inl e
             | Inr (n, buf', s) \<Rightarrow> Inr (int_of_size n, buf', s)))"

text \<open>
  The driver: \<open>memory\<close> is the output buffer followed by the byte after it, and the
  bytes returned are taken from the buffer.
\<close>

definition base64Decode_run :: "cchar \<Rightarrow> cchar list \<Rightarrow> error + cchar list" where
  "base64Decode_run after_table input =
     (let output_size = size_t (size_t (length input * 6) + 7) div 8;
          memory = heapArray output_size @ [0]
      in
      case base64_decode_block_run after_table input (int_of_size (length input)) memory
             base64_init_decodestate of
        Inl e \<Rightarrow> Inl e
      | Inr (cnt, memory', state) \<Rightarrow>
          (let n = size_of_int cnt; output' = take output_size memory' in
           Inr (if n < length output' then take n output' else output')))"


text \<open>
  A character that this run consumes, and the value it takes from it. For every character
  but the opening brace these are what \<open>valid_char\<close> and \<open>base64_decode_value\<close> say;
  the opening brace is consumed when \<open>after_table\<close> is not negative, with that byte as
  its value.
\<close>

definition consumed :: "cchar \<Rightarrow> cchar \<Rightarrow> bool" where
  "consumed after_table c \<longleftrightarrow>
     0 \<le> sint (word_of_int (decode_value_run after_table c) :: cchar)"

definition frag_run :: "cchar \<Rightarrow> cchar \<Rightarrow> cchar" where
  "frag_run after_table c = word_of_int (decode_value_run after_table c)"

definition fragments_run :: "cchar \<Rightarrow> cchar list \<Rightarrow> cchar list" where
  "fragments_run after_table cs = map (frag_run after_table) (filter (consumed after_table) cs)"

subsection \<open>Auxiliary notions of the proofs\<close>

text \<open>A value of six bits, and the character the table \<open>encoding\<close> holds for it.\<close>

definition sixbit :: "cchar \<Rightarrow> bool" where
  "sixbit v \<longleftrightarrow> take_bit 6 v = v"

definition enc6 :: "cchar \<Rightarrow> cchar" where
  "enc6 v = encoding ! unat v"

text \<open>The four characters of a complete group of three bytes.\<close>

definition group4 :: "cchar \<Rightarrow> cchar \<Rightarrow> cchar \<Rightarrow> cchar list" where
  "group4 a b c =
     [enc6 (drop_bit 2 (a AND 0xfc)),
      enc6 (push_bit 4 (a AND 0x03) OR drop_bit 4 (b AND 0xf0)),
      enc6 (push_bit 2 (b AND 0x0f) OR drop_bit 6 (c AND 0xc0)),
      enc6 (drop_bit 0 (c AND 0x3f))]"

text \<open>The end of an encoding: \<open>base64_encode_blockend\<close> after the blocks.\<close>

definition encode_finish ::
  "bool \<Rightarrow> error + (cchar list \<times> base64_encodestate) \<Rightarrow> error + cchar list" where
  "encode_finish bl r =
     (case r of
        Inl e \<Rightarrow> Inl e
      | Inr (code1, s) \<Rightarrow>
         (case base64_encode_blockend s bl of
            Inl e \<Rightarrow> Inl e
          | Inr (cnt, code2, s') \<Rightarrow> Inr (code1 @ code2)))"

text \<open>
  The length the specification gives for the encoding of \<open>n\<close> bytes: \<open>ceil(n/3) * 4\<close>
  characters plus, when lines are broken, \<open>ceil(ceil(n/3) * 4 / 72)\<close> newlines.
\<close>

definition encoded_size :: "nat \<Rightarrow> bool \<Rightarrow> nat" where
  "encoded_size n breakLines =
     (n + 2) div 3 * 4 + (if breakLines then ((n + 2) div 3 * 4 + 71) div 72 else 0)"


text \<open>
  The value of six bits that the decoder takes from a valid character, and the values it
  takes from a string: those of its valid characters, in order.
\<close>

definition frag :: "cchar \<Rightarrow> cchar" where
  "frag c = (case base64_decode_value c of Inl e \<Rightarrow> 0 | Inr v \<Rightarrow> word_of_int v)"

definition fragments :: "cchar list \<Rightarrow> cchar list" where
  "fragments cs = map frag (filter valid_char cs)"

text \<open>The loop of \<open>base64_decode_block\<close> on the values instead of the characters.\<close>

fun decode_frags ::
  "base64_decodestep \<Rightarrow> cchar list \<Rightarrow> cchar list \<Rightarrow> nat
    \<Rightarrow> error + (nat \<times> cchar list \<times> base64_decodestate)" where
  "decode_frags st [] buf p =
     (case load buf p of
        Inl e \<Rightarrow> Inl e
      | Inr v \<Rightarrow> Inr (p, buf, \<lparr>dstep = st, plainchar = v\<rparr>))"
| "decode_frags st (f # fs) buf p =
     (case decode_fragment st f buf p of
        Inl e \<Rightarrow> Inl e
      | Inr (st', buf', p') \<Rightarrow> decode_frags st' fs buf' p')"

text \<open>
  The three bytes that four values of six bits make, and the bytes that a list of values
  makes: three for every four values, two for three values left over, one for two.
\<close>

definition byte1 :: "cchar \<Rightarrow> cchar \<Rightarrow> cchar" where
  "byte1 f1 f2 = push_bit 2 (f1 AND 0x3f) OR drop_bit 4 (f2 AND 0x30)"

definition byte2 :: "cchar \<Rightarrow> cchar \<Rightarrow> cchar" where
  "byte2 f2 f3 = push_bit 4 (f2 AND 0x0f) OR drop_bit 2 (f3 AND 0x3c)"

definition byte3 :: "cchar \<Rightarrow> cchar \<Rightarrow> cchar" where
  "byte3 f3 f4 = push_bit 6 (f3 AND 0x03) OR (f4 AND 0x3f)"

fun bytes_of :: "cchar list \<Rightarrow> cchar list" where
  "bytes_of (f1 # f2 # f3 # f4 # fs) = byte1 f1 f2 # byte2 f2 f3 # byte3 f3 f4 # bytes_of fs"
| "bytes_of [f1, f2, f3] = [byte1 f1 f2, byte2 f2 f3]"
| "bytes_of [f1, f2] = [byte1 f1 f2]"
| "bytes_of [f1] = []"
| "bytes_of [] = []"





section \<open>Words of eight bits\<close>

lemma cstr_simps: "cstr [] = []" "cstr (c # s) = of_char c # cstr s"
  by (simp_all add: cstr_def)

text \<open>Two words of eight bits are equal when their eight bits are.\<close>

lemma word8_eqI:
  fixes x y :: "8 word"
  assumes "bit x 0 = bit y 0" "bit x 1 = bit y 1" "bit x 2 = bit y 2" "bit x 3 = bit y 3"
    "bit x 4 = bit y 4" "bit x 5 = bit y 5" "bit x 6 = bit y 6" "bit x 7 = bit y 7"
  shows "x = y"
proof (rule bit_eqI)
  fix n
  assume "possible_bit TYPE(8 word) n"
  then have "n < 8" by (simp add: possible_bit_def)
  then consider "n = 0" | "n = 1" | "n = 2" | "n = 3" | "n = 4" | "n = 5" | "n = 6" | "n = 7"
    by linarith
  then show "bit x n = bit y n"
    using assms by cases simp_all
qed

lemma sixbit_unat: "sixbit v \<Longrightarrow> unat v < 64"
proof -
  assume "sixbit v"
  then have "unat v = unat (take_bit 6 v)" by (simp add: sixbit_def)
  also have "\<dots> = take_bit 6 (unat v)" by (simp add: unsigned_take_bit_eq)
  also have "\<dots> < 2 ^ 6" by (rule take_bit_nat_less_exp)
  finally show ?thesis by simp
qed

lemma sixbit_sint: "sixbit v \<Longrightarrow> sint v = int (unat v)"
proof -
  assume "sixbit v"
  then have "unat v < 64" by (rule sixbit_unat)
  moreover have "uint v = int (unat v)" by simp
  ultimately have u: "uint v < 64" by linarith
  have lo: "- (2 ^ (LENGTH(8) - Suc 0)) \<le> uint v"
    by (rule order_trans [of _ 0]) simp_all
  have hi: "uint v < 2 ^ (LENGTH(8) - Suc 0)"
    using u by simp
  have "sint v = signed_take_bit (LENGTH(8) - Suc 0) (uint v)" by (rule sint_uint)
  also have "\<dots> = uint v" using lo hi by (rule signed_take_bit_int_eq_self)
  finally show ?thesis by simp
qed

text \<open>Every value the encoder looks up is a value of six bits.\<close>

lemma sixbit_A: "sixbit (drop_bit 2 (f AND 0xfc))"
  unfolding sixbit_def by (rule word8_eqI) (simp_all add: bit_simps)

lemma sixbit_A': "sixbit (push_bit 4 (f AND 0x03))"
  unfolding sixbit_def by (rule word8_eqI) (simp_all add: bit_simps)

lemma sixbit_B: "sixbit (push_bit 4 (f AND 0x03) OR drop_bit 4 (g AND 0xf0))"
  unfolding sixbit_def by (rule word8_eqI) (simp_all add: bit_simps)

lemma sixbit_B': "sixbit (push_bit 2 (f AND 0x0f))"
  unfolding sixbit_def by (rule word8_eqI) (simp_all add: bit_simps)

lemma sixbit_C: "sixbit (push_bit 2 (f AND 0x0f) OR drop_bit 6 (g AND 0xc0))"
  unfolding sixbit_def by (rule word8_eqI) (simp_all add: bit_simps)

lemma sixbit_D: "sixbit (drop_bit 0 (f AND 0x3f))"
  unfolding sixbit_def by (rule word8_eqI) (simp_all add: bit_simps)

section \<open>The encoder\<close>

subsection \<open>Table lookups\<close>

lemma encode_value_sixbit: "sixbit v \<Longrightarrow> base64_encode_value v = Inr (enc6 v)"
proof -
  assume v: "sixbit v"
  have "sint v < 64" using sixbit_unat [OF v] sixbit_sint [OF v] by linarith
  moreover have "0 \<le> sint v" using sixbit_sint [OF v] by simp
  moreover have "nat (sint v) = unat v" using sixbit_sint [OF v] by simp
  ultimately show ?thesis
    by (simp add: base64_encode_value_def enc6_def)
qed

lemmas encode_value_masked =
  encode_value_sixbit [OF sixbit_A] encode_value_sixbit [OF sixbit_B]
  encode_value_sixbit [OF sixbit_C] encode_value_sixbit [OF sixbit_D]

lemma length_encoding: "length encoding = 64"
  by (simp add: encoding_def cstr_def)

lemma enc6_alphabet: "sixbit v \<Longrightarrow> enc6 v \<in> set encoding"
  using sixbit_unat [of v] by (simp add: enc6_def length_encoding)

lemma newline_notin_encoding: "newline \<notin> set encoding"
  by (simp add: encoding_def cstr_def)

lemma equals_notin_encoding: "equals_sign \<notin> set encoding"
  by (simp add: encoding_def cstr_def)

lemma chars_per_group: "CHARS_PER_LINE div 4 = 18"
  by (simp add: CHARS_PER_LINE_def)

subsection \<open>Sizes and counts that fit\<close>

lemma sint_cint:
  assumes "- (2 ^ 31) \<le> v" "v < 2 ^ 31"
  shows "sint (word_of_int v :: cint) = v"
proof -
  have "sint (word_of_int v :: cint) = signed_take_bit (LENGTH(32) - 1) v"
    by (simp only: sint_sbintrunc')
  also have "\<dots> = v"
    using assms by (intro signed_take_bit_int_eq_self) simp_all
  finally show ?thesis .
qed

lemma sint_of_nat: "n < 2 ^ 31 \<Longrightarrow> sint (word_of_nat n :: cint) = int n"
proof -
  assume n: "n < 2 ^ 31"
  have "(word_of_nat n :: cint) = word_of_int (int n)" by simp
  moreover have "sint (word_of_int (int n) :: cint) = int n"
    using n by (intro sint_cint) simp_all
  ultimately show ?thesis by simp
qed

lemma sint_int_of_size: "n < 2 ^ 31 \<Longrightarrow> sint (int_of_size n) = int n"
  unfolding int_of_size_def by (rule sint_of_nat)

lemma size_of_int_of_size: "n < 2 ^ 31 \<Longrightarrow> size_of_int (int_of_size n) = n"
  by (simp add: size_of_int_def sint_int_of_size)

lemma sint_of_nat_Suc:
  "Suc m < 2 ^ 31 \<Longrightarrow> sint (word_of_nat m + 1 :: cint) = int m + 1"
  using sint_of_nat [of "Suc m"] by (simp add: add.commute)

lemma size_t_id: "n < 2 ^ 64 \<Longrightarrow> size_t n = n"
  by (simp add: size_t_def)

lemma c_uint_id: "n < 2 ^ 32 \<Longrightarrow> c_uint n = n"
  by (simp add: c_uint_def)

subsection \<open>The loop, a group at a time\<close>

lemma encode_loop_A1:
  "encode_loop bl step_A [a] r n =
     Inr ([enc6 (drop_bit 2 (a AND 0xfc))],
          \<lparr>step = step_B, result = push_bit 4 (a AND 0x03), stepcount = n\<rparr>)"
  by (simp only: encode_loop.simps encode_value_masked sum.case prod.case)

lemma encode_loop_A2:
  "encode_loop bl step_A [a, b] r n =
     Inr ([enc6 (drop_bit 2 (a AND 0xfc)),
           enc6 (push_bit 4 (a AND 0x03) OR drop_bit 4 (b AND 0xf0))],
          \<lparr>step = step_C, result = push_bit 2 (b AND 0x0f), stepcount = n\<rparr>)"
  by (simp only: encode_loop.simps encode_value_masked sum.case prod.case)

lemma encode_loop_A3:
  "encode_loop bl step_A (a # b # c # xs) r n =
     (case encode_loop bl step_A xs (drop_bit 0 (c AND 0x3f))
             (if bl \<and> sint (n + 1) = 18 then 0 else n + 1) of
        Inl e \<Rightarrow> Inl e
      | Inr (code, s) \<Rightarrow>
          Inr (group4 a b c @ (if bl \<and> sint (n + 1) = 18 then [newline] else []) @ code, s))"
proof (cases "encode_loop bl step_A xs (drop_bit 0 (c AND 0x3f))
                (if bl \<and> sint (n + 1) = 18 then 0 else n + 1)")
  case (Inl e)
  then show ?thesis
    by (simp only: encode_loop.simps encode_value_masked chars_per_group Let_def
        sum.case prod.case)
next
  case (Inr p)
  obtain code s where p: "p = (code, s)" by (cases p)
  show ?thesis
    unfolding group4_def
    by (simp only: encode_loop.simps encode_value_masked chars_per_group Let_def
        Inr p sum.case prod.case append.simps)
qed

text \<open>Induction over a list three elements at a time, as the encoder consumes it.\<close>

lemma list3_induct [case_names Nil One Two Group]:
  assumes "P []" and "\<And>a. P [a]" and "\<And>a b. P [a, b]"
    and "\<And>a b c xs. P xs \<Longrightarrow> P (a # b # c # xs)"
  shows "P xs"
proof (induction xs rule: length_induct)
  case (1 xs)
  show ?case
  proof (cases xs)
    case Nil
    then show ?thesis using assms(1) by simp
  next
    case (Cons a ys)
    note xs = this
    show ?thesis
    proof (cases ys)
      case Nil
      then show ?thesis using assms(2) xs by simp
    next
      case (Cons b zs)
      note ys = this
      show ?thesis
      proof (cases zs)
        case Nil
        then show ?thesis using assms(3) xs ys by simp
      next
        case (Cons c ws)
        have "P ws" using 1 xs ys Cons by simp
        then show ?thesis using assms(4) xs ys Cons by simp
      qed
    qed
  qed
qed

text \<open>
  A block over \<open>xs @ ys\<close> is the block over \<open>xs\<close> followed by the block over \<open>ys\<close>
  from the state the first one left, whatever the state it starts from.
\<close>

lemma encode_loop_append:
  "encode_loop bl st (xs @ ys) r n =
     (case encode_loop bl st xs r n of
        Inl e \<Rightarrow> Inl e
      | Inr (code1, s) \<Rightarrow>
         (case encode_loop bl (step s) ys (result s) (stepcount s) of
            Inl e \<Rightarrow> Inl e
          | Inr (code2, s') \<Rightarrow> Inr (code1 @ code2, s')))"
proof (induction bl st xs r n rule: encode_loop.induct)
  case (1 breakLines st res cnt)
  show ?case by (simp split: sum.splits prod.splits)
next
  case (2 breakLines fragment plain res cnt)
  then show ?case by (simp split: sum.splits prod.splits)
next
  case (3 breakLines fragment plain res cnt)
  then show ?case by (simp split: sum.splits prod.splits)
next
  case (4 breakLines fragment plain res cnt)
  then show ?case by (simp add: Let_def split: sum.splits prod.splits)
qed

subsection \<open>Flushing the last group\<close>

lemma blockend_count:
  "base64_encode_blockend s bl = Inr (cnt, code, s') \<Longrightarrow>
   cnt = int_of_size (length code) \<and> length code \<le> 4"
  by (auto simp add: base64_encode_blockend_def Let_def
      split: base64_encodestep.splits sum.splits if_splits)

lemma blockend_A:
  "base64_encode_blockend \<lparr>step = step_A, result = r, stepcount = n\<rparr> bl =
     Inr (int_of_size (length (if bl \<and> sint n > 0 then [newline] else [])),
          if bl \<and> sint n > 0 then [newline] else [],
          \<lparr>step = step_A, result = r, stepcount = n\<rparr>)"
  by (simp add: base64_encode_blockend_def)

lemma blockend_B:
  "sixbit r \<Longrightarrow>
   base64_encode_blockend \<lparr>step = step_B, result = r, stepcount = n\<rparr> bl =
     Inr (int_of_size (length ([enc6 r, equals_sign, equals_sign] @
                                (if bl \<and> sint (n + 1) > 0 then [newline] else []))),
          [enc6 r, equals_sign, equals_sign] @
            (if bl \<and> sint (n + 1) > 0 then [newline] else []),
          \<lparr>step = step_B, result = r, stepcount = n + 1\<rparr>)"
  by (simp add: base64_encode_blockend_def encode_value_sixbit)

lemma blockend_C:
  "sixbit r \<Longrightarrow>
   base64_encode_blockend \<lparr>step = step_C, result = r, stepcount = n\<rparr> bl =
     Inr (int_of_size (length ([enc6 r, equals_sign] @
                                (if bl \<and> sint (n + 1) > 0 then [newline] else []))),
          [enc6 r, equals_sign] @ (if bl \<and> sint (n + 1) > 0 then [newline] else []),
          \<lparr>step = step_C, result = r, stepcount = n + 1\<rparr>)"
  by (simp add: base64_encode_blockend_def encode_value_sixbit)

lemma encode_finish_Nil:
  "encode_finish bl (encode_loop bl step_A [] r n) =
     Inr (if bl \<and> sint n > 0 then [newline] else [])"
  by (simp only: encode_finish_def encode_loop.simps blockend_A sum.case prod.case
      append.simps)

lemma encode_finish_One:
  "encode_finish bl (encode_loop bl step_A [a] r n) =
     Inr ([enc6 (drop_bit 2 (a AND 0xfc)), enc6 (push_bit 4 (a AND 0x03)),
           equals_sign, equals_sign] @ (if bl \<and> sint (n + 1) > 0 then [newline] else []))"
  by (simp only: encode_finish_def encode_loop_A1 blockend_B [OF sixbit_A'] sum.case
      prod.case append.simps)

lemma encode_finish_Two:
  "encode_finish bl (encode_loop bl step_A [a, b] r n) =
     Inr ([enc6 (drop_bit 2 (a AND 0xfc)),
           enc6 (push_bit 4 (a AND 0x03) OR drop_bit 4 (b AND 0xf0)),
           enc6 (push_bit 2 (b AND 0x0f)), equals_sign] @
          (if bl \<and> sint (n + 1) > 0 then [newline] else []))"
  by (simp only: encode_finish_def encode_loop_A2 blockend_C [OF sixbit_B'] sum.case
      prod.case append.simps)

lemma encode_finish_Group:
  "encode_finish bl (encode_loop bl step_A (a # b # c # xs) r n) =
     (case encode_finish bl (encode_loop bl step_A xs (drop_bit 0 (c AND 0x3f))
             (if bl \<and> sint (n + 1) = 18 then 0 else n + 1)) of
        Inl e \<Rightarrow> Inl e
      | Inr out \<Rightarrow>
          Inr (group4 a b c @ (if bl \<and> sint (n + 1) = 18 then [newline] else []) @ out))"
  by (simp only: encode_loop_A3 encode_finish_def split: sum.splits prod.splits)
     (auto split: sum.splits prod.splits)

lemma length_group4: "length (group4 a b c) = 4"
  by (simp add: group4_def)

lemma set_group4: "set (group4 a b c) \<subseteq> set encoding"
  by (simp only: group4_def list.set insert_subset empty_subsetI enc6_alphabet
      sixbit_A sixbit_B sixbit_C sixbit_D simp_thms)

subsection \<open>Counting the characters\<close>

lemma lines_div: "g div 18 + (if g mod 18 > 0 then 1 else 0) = (g + 17) div 18" for g :: nat
proof -
  obtain q r where g: "g = 18 * q + r" and r: "r < 18"
    using mod_less_divisor [of 18 g] mult_div_mod_eq [of 18 g] by (metis zero_less_numeral)
  have d: "(18 * q + r) div 18 = q" and m: "(18 * q + r) mod 18 = r"
    using r by simp_all
  have "(18 * q + r + 17) div 18 = q + (r + 17) div 18" by linarith
  moreover have "(r + 17) div 18 = (if r > 0 then 1 else 0)" using r by auto
  ultimately have "(18 * q + r + 17) div 18 = q + (if r > 0 then 1 else 0)" by simp
  then show ?thesis
    unfolding g by (simp only: d m)
qed

lemma lines_72: "(g * 4 + 71) div 72 = (g + 17) div 18" for g :: nat
  by linarith

lemma encoded_size_groups:
  "encoded_size n bl = (n + 2) div 3 * 4 + (if bl then ((n + 2) div 3 + 17) div 18 else 0)"
  by (simp only: encoded_size_def lines_72)

text \<open>
  Below \<open>2 ^ 32\<close> bytes the arithmetic of the driver does not wrap, and the size it
  computes is the size of the specification.
\<close>

lemma numChars_eq: "n < 2 ^ 32 \<Longrightarrow> numChars n bl = encoded_size n bl"
proof -
  assume "n < 2 ^ 32"
  then have n: "n < 4294967296" by simp
  define g where "g = (n + 2) div 3"
  have g: "g < 2147483648" unfolding g_def using n by linarith
  have d: "g div 18 < 2147483648" using g by linarith
  have s1: "size_t (n + 2) = n + 2" using n by (simp add: size_t_def)
  have s2: "size_t (g * 4) = g * 4" using g by (simp add: size_t_def)
  have a: "(g * 4) div 72 = g div 18" by simp
  have "g * 4 mod 72 = (g mod 18) * 4" using mod_mult_mult2 [of g 4 18] by simp
  then have b: "(g * 4 mod 72 > 0) = (g mod 18 > 0)" by simp
  have u1: "c_uint (g div 18) = g div 18" using d by (simp add: c_uint_def)
  have u2: "c_uint (Suc (g div 18)) = Suc (g div 18)" using d by (simp add: c_uint_def)
  have s3: "size_t (g * 4 + g div 18) = g * 4 + g div 18"
    using g d by (simp add: size_t_def)
  have s4: "size_t (Suc (g * 4 + g div 18)) = Suc (g * 4 + g div 18)"
    using g d by (simp add: size_t_def)
  have "numChars n bl = g * 4 + (if bl then g div 18 + (if g mod 18 > 0 then 1 else 0) else 0)"
    unfolding numChars_def Let_def CHARS_PER_LINE_def s1 g_def [symmetric] s2
    by (simp add: a b u1 u2 s3 s4)
  then show ?thesis
    unfolding encoded_size_groups g_def [symmetric] by (simp only: lines_div)
qed

lemma input_le_encoded_size: "n \<le> encoded_size n bl"
proof -
  have "n \<le> (n + 2) div 3 * 4" by linarith
  then show ?thesis by (simp add: encoded_size_def)
qed

lemma count_small: "m < 18 \<Longrightarrow> sint (word_of_nat m :: cint) = int m"
  by (rule sint_of_nat) simp

lemma count_Suc_small: "m < 18 \<Longrightarrow> sint (word_of_nat m + 1 :: cint) = int m + 1"
  by (rule sint_of_nat_Suc) simp

text \<open>The count after a group, for a count that stays below the 18 groups of a line.\<close>

lemma count_step:
  "(bl \<Longrightarrow> m < 18) \<Longrightarrow>
   (if bl \<and> sint (word_of_nat m + 1 :: cint) = 18 then 0 else word_of_nat m + 1) =
     (word_of_nat (if bl \<and> m + 1 = 18 then 0 else m + 1) :: cint)"
  by (cases bl) (simp_all add: count_Suc_small)

lemma encode_total_length:
  "(bl \<Longrightarrow> m < 18) \<Longrightarrow>
   \<exists>out. encode_finish bl (encode_loop bl step_A xs r (word_of_nat m)) = Inr out \<and>
     length out = (length xs + 2) div 3 * 4 +
       (if bl then (m + (length xs + 2) div 3 + 17) div 18 else 0)"
proof (induction xs arbitrary: r m rule: list3_induct)
  case Nil
  then show ?case
    by (cases bl) (simp_all only: encode_finish_Nil, auto simp add: count_small)
next
  case (One a)
  then show ?case
    by (cases bl) (simp_all only: encode_finish_One, auto simp add: count_Suc_small)
next
  case (Two a b)
  then show ?case
    by (cases bl) (simp_all only: encode_finish_Two, auto simp add: count_Suc_small)
next
  case (Group a b c xs)
  define m' where "m' = (if bl \<and> m + 1 = 18 then 0 else m + 1)"
  have m': "bl \<Longrightarrow> m' < 18"
    using Group.prems by (auto simp add: m'_def)
  have brk: "(bl \<and> sint (word_of_nat m + 1 :: cint) = 18) = (bl \<and> m + 1 = 18)"
    using Group.prems by (cases bl) (simp_all add: count_Suc_small)
  have int_m': "(if bl \<and> m + 1 = 18 then 0 else word_of_nat m + 1) = (word_of_nat m' :: cint)"
    by (simp add: m'_def)
  from Group.IH [OF m', of "drop_bit 0 (c AND 0x3f)"]
  obtain out where out:
    "encode_finish bl (encode_loop bl step_A xs (drop_bit 0 (c AND 0x3f)) (word_of_nat m'))
      = Inr out"
    "length out = (length xs + 2) div 3 * 4 +
       (if bl then (m' + (length xs + 2) div 3 + 17) div 18 else 0)"
    by blast
  let ?brk = "if bl \<and> m + 1 = 18 then [newline] else []"
  have fin: "encode_finish bl (encode_loop bl step_A (a # b # c # xs) r (word_of_nat m)) =
      Inr (group4 a b c @ ?brk @ out)"
    by (simp only: encode_finish_Group brk int_m' out(1) sum.case)
  define g where "g = (length xs + 2) div 3"
  have G: "(length (a # b # c # xs) + 2) div 3 = Suc g"
    by (simp add: g_def)
  have wrap: "Suc ((g + 17) div 18) = (17 + Suc g + 17) div 18"
    by linarith
  have len: "length (group4 a b c @ ?brk @ out) =
      (length (a # b # c # xs) + 2) div 3 * 4 +
       (if bl then (m + (length (a # b # c # xs) + 2) div 3 + 17) div 18 else 0)"
  proof (cases "bl \<and> m + 1 = 18")
    case True
    then have "m = 17" and bl and "m' = 0" by (simp_all add: m'_def)
    then show ?thesis
      unfolding G using out(2) wrap by (simp add: length_group4 g_def)
  next
    case False
    then have "m' = m + 1 \<or> \<not> bl" by (auto simp add: m'_def)
    with False show ?thesis
      unfolding G using out(2) by (auto simp add: length_group4 g_def)
  qed
  show ?case using fin len by blast
qed

subsection \<open>The one-shot driver on inputs whose encoding fits an \<open>int\<close>\<close>

lemma block_fits:
  "length xs < 2 ^ 31 \<Longrightarrow>
   base64_encode_block xs (int_of_size (length xs)) s bl =
     (case encode_loop bl (step s) xs (result s) (stepcount s) of
        Inl e \<Rightarrow> Inl e
      | Inr (code, s') \<Rightarrow> Inr (int_of_size (length code), code, s'))"
  by (simp add: base64_encode_block_def sint_int_of_size)

lemma write_at_fresh:
  "length pre + length code \<le> n \<Longrightarrow>
   write_at (pre @ replicate (n - length pre) 0) (int (length pre)) code =
     Inr ((pre @ code) @ replicate (n - length (pre @ code)) 0)"
  by (simp add: write_at_def)

lemma encode_finish_size:
  "\<exists>out. encode_finish bl (encode_loop bl step_A input 0 0) = Inr out \<and>
     length out = encoded_size (length input) bl"
proof -
  have "\<exists>out. encode_finish bl (encode_loop bl step_A input 0 (word_of_nat 0)) = Inr out \<and>
     length out = (length input + 2) div 3 * 4 +
       (if bl then (0 + (length input + 2) div 3 + 17) div 18 else 0)"
    by (rule encode_total_length) simp
  then show ?thesis
    by (cases bl) (simp_all add: encoded_size_groups)
qed

text \<open>
  When the size of the encoding is below \<open>2 ^ 31\<close>, no conversion loses anything and no
  check of the driver fails: it returns what the two calls wrote.
\<close>

lemma base64Encode_eq_loop:
  assumes "encoded_size (length input) bl < 2 ^ 31"
  shows "base64Encode input bl = encode_finish bl (encode_loop bl step_A input 0 0)"
proof -
  let ?n = "length input" and ?E = "encoded_size (length input) bl"
  have E: "?E < 2147483648" using assms by simp
  have n: "?n < 2147483648" using input_le_encoded_size [of ?n bl] E by linarith
  have size: "numChars ?n bl = ?E" using n by (intro numChars_eq) simp
  obtain out where out:
    "encode_finish bl (encode_loop bl step_A input 0 0) = Inr out" "length out = ?E"
    using encode_finish_size by blast
  from out(1) obtain code1 s cnt2 code2 s' where parts:
    "encode_loop bl step_A input 0 0 = Inr (code1, s)"
    "base64_encode_blockend s bl = Inr (cnt2, code2, s')"
    "out = code1 @ code2"
    by (auto simp add: encode_finish_def split: sum.splits prod.splits)
  have cnt2: "cnt2 = int_of_size (length code2)" using blockend_count [OF parts(2)] by simp
  have len: "length code1 + length code2 = ?E" using out(2) parts(3) by simp
  have l1: "length code1 < 2 ^ 31" and l2: "length code2 < 2 ^ 31"
    using len E by simp_all
  have block: "base64_encode_block input (int_of_size ?n) base64_init_encodestate bl =
      Inr (int_of_size (length code1), code1, s)"
    using parts(1) n by (simp add: block_fits base64_init_encodestate_def)
  have w1: "write_at (heapString ?E) 0 code1 = Inr (code1 @ replicate (?E - length code1) 0)"
    using write_at_fresh [of "[]" code1 ?E] len by (simp add: heapString_def)
  have w2: "write_at (code1 @ replicate (?E - length code1) 0) (int (length code1)) code2 =
      Inr (code1 @ code2)"
    using write_at_fresh [of code1 code2 ?E] len by simp
  have total: "size_t (size_t (0 + size_of_int (int_of_size (length code1))) +
      size_of_int (int_of_size (length code2))) = ?E"
    using len E by (simp add: size_of_int_of_size [OF l1] size_of_int_of_size [OF l2] size_t_def)
  have "base64Encode input bl = Inr (code1 @ code2)"
    unfolding base64Encode_def size Let_def
    by (simp only: block sum.case prod.case w1 parts(2) cnt2 sint_int_of_size [OF l1] w2
        total) (simp add: heapString_def)
  then show ?thesis by (simp only: out(1) parts(3))
qed






subsection \<open>Counting the newlines\<close>






subsection \<open>The claims about the encoder\<close>







text \<open>
  Claim C9. The standard vectors: the bytes of "Man", "Ma" and "M" encode to "TWFu",
  "TWE=" and "TQ==", and the empty input encodes to the empty string with and without
  line breaks.
\<close>

theorem known_vectors:
  "base64Encode [0x4D, 0x61, 0x6E] False = Inr (cstr ''TWFu'') \<and>
   base64Encode [0x4D, 0x61] False = Inr (cstr ''TWE='') \<and>
   base64Encode [0x4D] False = Inr (cstr ''TQ=='') \<and>
   base64Encode [] False = Inr (cstr '''') \<and>
   base64Encode [] True = Inr (cstr '''')"
proof -
  have "encode_finish False (encode_loop False step_A [0x4D, 0x61, 0x6E] 0 0) =
      Inr (cstr ''TWFu'')"
    and "encode_finish False (encode_loop False step_A [0x4D, 0x61] 0 0) = Inr (cstr ''TWE='')"
    and "encode_finish False (encode_loop False step_A [0x4D] 0 0) = Inr (cstr ''TQ=='')"
    and "encode_finish False (encode_loop False step_A [] 0 0) = Inr (cstr '''')"
    and "encode_finish True (encode_loop True step_A [] 0 0) = Inr (cstr '''')"
    by code_simp+
  then show ?thesis
    by (simp add: base64Encode_eq_loop encoded_size_def)
qed

subsection \<open>The state a block leaves and the padding\<close>

lemma sixbit_0: "sixbit 0"
  by (simp add: sixbit_def)

text \<open>
  The state a block leaves: the carried bits are a value of six bits, and the count is
  at most the number of groups encoded, and below 18 when lines are broken.
\<close>

lemma encode_loop_state:
  "sixbit r \<Longrightarrow> (bl \<Longrightarrow> m < 18) \<Longrightarrow>
   encode_loop bl step_A xs r (word_of_nat m) = Inr (code, s) \<Longrightarrow>
   sixbit (result s) \<and>
   (\<exists>k. stepcount s = word_of_nat k \<and> k \<le> m + length xs div 3)"
proof (induction xs arbitrary: r m code rule: list3_induct)
  case Nil
  then show ?case by auto
next
  case (One a)
  then show ?case
    using sixbit_A' [of a] by (auto simp only: encode_loop_A1) auto
next
  case (Two a b)
  then show ?case
    using sixbit_B' [of b] by (auto simp only: encode_loop_A2) auto
next
  case (Group a b c xs)
  define m' where "m' = (if bl \<and> m + 1 = 18 then 0 else m + 1)"
  have m': "bl \<Longrightarrow> m' < 18"
    using Group.prems(2) by (auto simp add: m'_def)
  have le: "m' \<le> m + 1" by (simp add: m'_def)
  have step: "(if bl \<and> sint (word_of_nat m + 1 :: cint) = 18 then 0 else word_of_nat m + 1) =
      (word_of_nat m' :: cint)"
    unfolding m'_def using Group.prems(2) by (rule count_step)
  from Group.prems(3) obtain code' where
    rec: "encode_loop bl step_A xs (drop_bit 0 (c AND 0x3f)) (word_of_nat m') = Inr (code', s)"
    by (simp only: encode_loop_A3 step split: sum.splits prod.splits) auto
  from Group.IH [OF sixbit_D m' rec] obtain k where
    "sixbit (result s)" "stepcount s = word_of_nat k" "k \<le> m' + length xs div 3"
    by blast
  moreover have "m' + length xs div 3 \<le> m + length (a # b # c # xs) div 3"
    using le by simp
  ultimately show ?case by (meson le_trans)
qed

text \<open>Every state that one block leaves from the initial state.\<close>

lemma block_state:
  assumes "base64_encode_block xs length_in base64_init_encodestate bl = Inr (cnt, code, s)"
  shows "sixbit (result s) \<and> 0 \<le> sint (stepcount s) \<and> sint (stepcount s) < 2147483647"
proof -
  let ?ys = "take (nat (sint length_in)) xs"
  have "sint length_in < 2 ^ (LENGTH(32) - 1)" by (rule sint_lt)
  then have ys: "length ?ys < 2147483648" by simp
  from assms obtain code' where
    "encode_loop bl step_A ?ys 0 (word_of_nat 0) = Inr (code', s)"
    by (auto simp add: base64_encode_block_def base64_init_encodestate_def
        split: if_splits sum.splits)
  from encode_loop_state [OF sixbit_0 _ this] obtain k where
    k: "sixbit (result s)" "stepcount s = word_of_nat k" "k \<le> 0 + length ?ys div 3"
    by auto
  have "k < 2147483647" using k(3) ys by linarith
  then have "sint (word_of_nat k :: cint) = int k" by (intro sint_of_nat) simp
  then show ?thesis using k \<open>k < 2147483647\<close> by simp
qed

text \<open>
  Claim C6, as amended. \<open>base64_encode_blockend\<close> flushes the pending group of a state
  whose carried bits are a value of six bits and whose count is not negative and below
  the largest \<open>int\<close> (every state a block leaves from the initial state is such a state,
  \<open>block_state\<close>): in \<open>step_B\<close> it writes exactly one data character, the one for the
  carried bits, and then two padding characters; in \<open>step_C\<close> exactly one data character
  and then one padding character; in \<open>step_A\<close> nothing. With line breaks it then writes
  one newline, unless the step is \<open>step_A\<close> and no group was written since the last
  newline. It returns the number of characters written. The data character is one of the
  64 of the table, so it is neither the padding character nor a newline.
\<close>

theorem blockend_padding:
  assumes "sixbit (result s)" and "0 \<le> sint (stepcount s)"
    and "sint (stepcount s) < 2147483647"
  shows "\<exists>code.
     code = (case step s of
               step_A \<Rightarrow> []
             | step_B \<Rightarrow> [enc6 (result s), equals_sign, equals_sign]
             | step_C \<Rightarrow> [enc6 (result s), equals_sign]) @
            (if breakLines \<and> (step s = step_A \<longrightarrow> sint (stepcount s) > 0) then [newline]
             else []) \<and>
     base64_encode_blockend s breakLines =
       Inr (int_of_size (length code), code,
            s\<lparr>stepcount := (if step s = step_A then stepcount s else stepcount s + 1)\<rparr>) \<and>
     sint (int_of_size (length code)) = int (length code) \<and>
     enc6 (result s) \<in> set encoding \<and> equals_sign \<notin> set encoding \<and>
     newline \<notin> set encoding"
proof -
  have v: "base64_encode_value (result s) = Inr (enc6 (result s))"
    using assms(1) by (rule encode_value_sixbit)
  have "sint (stepcount s + 1) =
      signed_take_bit (LENGTH(32) - 1) (sint (stepcount s) + sint (1 :: cint))"
    by (rule sint_word_add)
  also have "\<dots> = sint (stepcount s) + sint (1 :: cint)"
    using assms(2,3) by (intro signed_take_bit_int_eq_self) simp_all
  finally have pos: "sint (stepcount s + 1) > 0" using assms(2) by simp
  let ?code = "(case step s of
               step_A \<Rightarrow> []
             | step_B \<Rightarrow> [enc6 (result s), equals_sign, equals_sign]
             | step_C \<Rightarrow> [enc6 (result s), equals_sign]) @
            (if breakLines \<and> (step s = step_A \<longrightarrow> sint (stepcount s) > 0) then [newline]
             else [])"
  have e: "base64_encode_blockend s breakLines =
       Inr (int_of_size (length ?code), ?code,
            s\<lparr>stepcount := (if step s = step_A then stepcount s else stepcount s + 1)\<rparr>)"
    using v pos by (cases "step s") (simp_all add: base64_encode_blockend_def)
  have "length ?code < 2 ^ 31"
    by (cases "step s") simp_all
  then have c: "sint (int_of_size (length ?code)) = int (length ?code)"
    by (rule sint_int_of_size)
  show ?thesis
    using e c enc6_alphabet [OF assms(1)] equals_notin_encoding newline_notin_encoding
    by blast
qed

theorem blockend_padding_witness:
  "sixbit 4 \<and> 0 \<le> sint (0 :: cint) \<and> sint (0 :: cint) < 2147483647 \<and>
   base64_encode_blockend \<lparr>step = step_C, result = 4, stepcount = 0\<rparr> True =
     Inr (3, cstr ''E='' @ [newline], \<lparr>step = step_C, result = 4, stepcount = 1\<rparr>) \<and>
   base64_encode_blockend \<lparr>step = step_B, result = 16, stepcount = 0\<rparr> False =
     Inr (3, cstr ''Q=='', \<lparr>step = step_B, result = 16, stepcount = 1\<rparr>)"
proof -
  have s4: "sixbit 4" and s16: "sixbit 16" by (simp_all add: sixbit_def)
  have e4: "enc6 4 = of_char CHR ''E''" and e16: "enc6 16 = of_char CHR ''Q''"
    by (simp_all add: enc6_def encoding_def cstr_def)
  show ?thesis
    using blockend_padding [of "\<lparr>step = step_C, result = 4, stepcount = 0\<rparr>" True]
      blockend_padding [of "\<lparr>step = step_B, result = 16, stepcount = 0\<rparr>" False]
      s4 s16 e4 e16
    by (simp add: cstr_def int_of_size_def)
qed

text \<open>
  The claim as stated fails in \<open>step_C\<close>: after the two bytes of "Ma" the block has
  written "TW" and the state is in \<open>step_C\<close>; \<open>base64_encode_blockend\<close> then writes "E=",
  one data character and the padding character, not two data characters.
\<close>

theorem blockend_step_C_counterexample:
  "base64_encode_block [0x4D, 0x61] 2 base64_init_encodestate False =
     Inr (2, cstr ''TW'', \<lparr>step = step_C, result = 4, stepcount = 0\<rparr>) \<and>
   base64_encode_blockend \<lparr>step = step_C, result = 4, stepcount = 0\<rparr> False =
     Inr (2, cstr ''E='', \<lparr>step = step_C, result = 4, stepcount = 1\<rparr>)"
proof -
  have "encode_loop False step_A [0x4D, 0x61] 0 0 =
      Inr (cstr ''TW'', \<lparr>step = step_C, result = 4, stepcount = 0\<rparr>)"
    by code_simp
  then have "base64_encode_block [0x4D, 0x61] 2 base64_init_encodestate False =
     Inr (2, cstr ''TW'', \<lparr>step = step_C, result = 4, stepcount = 0\<rparr>)"
    by (simp add: base64_encode_block_def base64_init_encodestate_def int_of_size_def
        cstr_def del: encode_loop.simps)
  moreover have
    "base64_encode_blockend \<lparr>step = step_C, result = 4, stepcount = 0\<rparr> False =
     Inr (2, cstr ''E='', \<lparr>step = step_C, result = 4, stepcount = 1\<rparr>)"
    by code_simp
  ultimately show ?thesis by (rule conjI)
qed

subsection \<open>Line breaks\<close>

text \<open>
  A whole number of groups that ends exactly where the line is full: the groups, then the
  newline, and the count back at 0.
\<close>

lemma encode_loop_full_line:
  "length xs = 3 * k \<Longrightarrow> 0 < k \<Longrightarrow> m + k = 18 \<Longrightarrow>
   \<exists>line r'. encode_loop True step_A xs r (word_of_nat m) =
       Inr (line @ [newline], \<lparr>step = step_A, result = r', stepcount = 0\<rparr>) \<and>
     length line = 4 * k \<and> set line \<subseteq> set encoding"
proof (induction xs arbitrary: r m k rule: list3_induct)
  case Nil
  then show ?case by simp
next
  case (One a)
  then show ?case by auto
next
  case (Two a b)
  then show ?case by auto
next
  case (Group a b c xs)
  from Group.prems obtain k' where k: "k = Suc k'" and len: "length xs = 3 * k'"
    by (cases k) auto
  have small: "m < 18" using Group.prems by simp
  show ?case
  proof (cases "k' = 0")
    case True
    then have "m + 1 = 18" and xs: "xs = []"
      using Group.prems k len by auto
    then have m: "sint (word_of_nat m + 1 :: cint) = 18"
      using count_Suc_small [OF small] by simp
    have "encode_loop True step_A (a # b # c # xs) r (word_of_nat m) =
        Inr (group4 a b c @ [newline],
             \<lparr>step = step_A, result = drop_bit 0 (c AND 0x3f), stepcount = 0\<rparr>)"
      unfolding xs
      by (simp only: encode_loop_A3 m encode_loop.simps(1) simp_thms if_True sum.case
          prod.case append_Nil2)
    then show ?thesis
      using set_group4 [of a b c] k True by (auto simp add: length_group4)
  next
    case False
    then have k': "0 < k'" and m': "Suc m + k' = 18" and "m + 1 \<noteq> 18"
      using Group.prems k by auto
    then have nb: "sint (word_of_nat m + 1 :: cint) \<noteq> 18"
      using count_Suc_small [OF small] by simp
    from Group.IH [OF len k' m', of "drop_bit 0 (c AND 0x3f)"]
    obtain line r' where line:
      "encode_loop True step_A xs (drop_bit 0 (c AND 0x3f)) (word_of_nat (Suc m)) =
         Inr (line @ [newline], \<lparr>step = step_A, result = r', stepcount = 0\<rparr>)"
      "length line = 4 * k'" "set line \<subseteq> set encoding"
      by blast
    have "encode_loop True step_A (a # b # c # xs) r (word_of_nat m) =
        (case encode_loop True step_A xs (drop_bit 0 (c AND 0x3f)) (word_of_nat (Suc m)) of
           Inl e \<Rightarrow> Inl e
         | Inr (code, s) \<Rightarrow> Inr (group4 a b c @ code, s))"
      using nb
      by (simp only: encode_loop_A3) (simp add: add.commute split: sum.splits prod.splits)
    then have "encode_loop True step_A (a # b # c # xs) r (word_of_nat m) =
        Inr ((group4 a b c @ line) @ [newline],
             \<lparr>step = step_A, result = r', stepcount = 0\<rparr>)"
      by (simp only: line(1) sum.case prod.case append_assoc)
    moreover have "length (group4 a b c @ line) = 4 * k"
      using line(2) k by (simp add: length_group4)
    moreover have "set (group4 a b c @ line) \<subseteq> set encoding"
      using line(3) set_group4 [of a b c] by simp
    ultimately show ?thesis by blast
  qed
qed

lemma encode_54:
  assumes "length input = 54"
  shows "\<exists>line. base64Encode input True = Inr (line @ [newline]) \<and>
           length line = 72 \<and> set line \<subseteq> set encoding"
proof -
  have fits: "encoded_size (length input) True < 2 ^ 31"
    using assms by (simp add: encoded_size_def)
  have "length input = 3 * 18" using assms by simp
  from encode_loop_full_line [OF this, of 0 0]
  obtain line r' where line:
    "encode_loop True step_A input 0 0 =
       Inr (line @ [newline], \<lparr>step = step_A, result = r', stepcount = 0\<rparr>)"
    "length line = 4 * 18" "set line \<subseteq> set encoding"
    by auto
  have "base64Encode input True = Inr (line @ [newline])"
    using line(1) by (simp add: base64Encode_eq_loop [OF fits] encode_finish_def blockend_A)
  then show ?thesis using line(2,3) by auto
qed

lemma encode_55:
  assumes "length input = 55"
  shows "\<exists>line d1 d2. base64Encode input True =
             Inr (line @ [newline] @ [d1, d2, equals_sign, equals_sign] @ [newline]) \<and>
           length line = 72 \<and> set line \<subseteq> set encoding \<and>
           d1 \<in> set encoding \<and> d2 \<in> set encoding"
proof -
  have fits: "encoded_size (length input) True < 2 ^ 31"
    using assms by (simp add: encoded_size_def)
  define ys where "ys = take 54 input"
  obtain z where input: "input = ys @ [z]"
  proof -
    have "length (drop 54 input) = 1" using assms by simp
    then obtain z where "drop 54 input = [z]"
      by (cases "drop 54 input") auto
    then have "input = ys @ [z]"
      unfolding ys_def using append_take_drop_id [of 54 input] by simp
    then show ?thesis by (rule that)
  qed
  have "length ys = 3 * 18" using assms by (simp add: ys_def)
  from encode_loop_full_line [OF this, of 0 0]
  obtain line r' where line:
    "encode_loop True step_A ys 0 0 =
       Inr (line @ [newline], \<lparr>step = step_A, result = r', stepcount = 0\<rparr>)"
    "length line = 4 * 18" "set line \<subseteq> set encoding"
    by auto
  let ?d1 = "enc6 (drop_bit 2 (z AND 0xfc))" and ?d2 = "enc6 (push_bit 4 (z AND 0x03))"
  have loop: "encode_loop True step_A input 0 0 =
      Inr ((line @ [newline]) @ [?d1],
           \<lparr>step = step_B, result = push_bit 4 (z AND 0x03), stepcount = 0\<rparr>)"
    unfolding input
    by (simp add: encode_loop_append encode_loop_A1 line(1) del: encode_loop.simps)
  have "base64Encode input True =
      Inr (((line @ [newline]) @ [?d1]) @
           [?d2, equals_sign, equals_sign] @ [newline])"
    by (simp only: base64Encode_eq_loop [OF fits] loop encode_finish_def sum.case prod.case
        blockend_B [OF sixbit_A']) simp
  then have "base64Encode input True =
      Inr (line @ [newline] @ [?d1, ?d2, equals_sign, equals_sign] @ [newline])"
    by simp
  moreover have "?d1 \<in> set encoding" by (rule enc6_alphabet [OF sixbit_A])
  moreover have "?d2 \<in> set encoding" by (rule enc6_alphabet [OF sixbit_A'])
  ultimately show ?thesis using line(2,3) by auto
qed

text \<open>
  Claim C8. With line breaks, an input of 54 bytes encodes to 72 characters of the table
  followed by one newline, and nothing after it; an input of 55 bytes encodes to 72
  characters of the table, a newline, the last group (two characters of the table and two
  padding characters) and a final newline. No character of the table is a newline or the
  padding character, so these are the only newlines.
\<close>

theorem line_wrap_boundary:
  "(length input = 54 \<longrightarrow>
      (\<exists>line. base64Encode input True = Inr (line @ [newline]) \<and>
         length line = 72 \<and> set line \<subseteq> set encoding)) \<and>
   (length input = 55 \<longrightarrow>
      (\<exists>line d1 d2. base64Encode input True =
           Inr (line @ [newline] @ [d1, d2, equals_sign, equals_sign] @ [newline]) \<and>
         length line = 72 \<and> set line \<subseteq> set encoding \<and>
         d1 \<in> set encoding \<and> d2 \<in> set encoding)) \<and>
   newline \<notin> set encoding \<and> equals_sign \<notin> set encoding"
  using encode_54 [of input] encode_55 [of input] newline_notin_encoding equals_notin_encoding
  by blast

theorem line_wrap_boundary_witness:
  "length (replicate 54 (0::cchar)) = 54 \<and>
   (\<exists>line. base64Encode (replicate 54 0) True = Inr (line @ [newline]) \<and>
      length line = 72 \<and> set line \<subseteq> set encoding) \<and>
   length (replicate 55 (0::cchar)) = 55 \<and>
   (\<exists>line d1 d2. base64Encode (replicate 55 0) True =
        Inr (line @ [newline] @ [d1, d2, equals_sign, equals_sign] @ [newline]) \<and>
      length line = 72 \<and> set line \<subseteq> set encoding \<and>
      d1 \<in> set encoding \<and> d2 \<in> set encoding)"
  using line_wrap_boundary [of "replicate 54 0"] line_wrap_boundary [of "replicate 55 0"]
  by simp

section \<open>The decoder\<close>

lemma length_decoding: "length decoding = 80"
  by (simp add: decoding_def)

lemma sint_decoding_size: "sint decoding_size = 80"
  by (simp add: decoding_size_def length_decoding)

text \<open>The table is read out of range for exactly one character, the brace with code 123.\<close>

lemma decode_value_out_of_bounds:
  "base64_decode_value c = Inl OutOfBounds \<longleftrightarrow> c = 123"
proof -
  have "sint (c - 43) = sint (80 :: cchar) \<longleftrightarrow> c - 43 = 80"
    by (simp only: word_eq_iff_signed [where ?'a = int, symmetric])
  moreover have "sint (80 :: cchar) = 80" by simp
  moreover have "c - 43 = 80 \<longleftrightarrow> c = 123"
  proof
    assume "c - 43 = 80"
    then have "c - 43 + 43 = 80 + 43" by simp
    then show "c = 123" by simp
  next
    assume "c = 123"
    then show "c - 43 = 80" by simp
  qed
  ultimately have eq: "sint (c - 43) = 80 \<longleftrightarrow> c = 123" by simp
  have "base64_decode_value c = Inl OutOfBounds \<longleftrightarrow> sint (c - 43) = 80"
    by (auto simp add: base64_decode_value_def Let_def length_decoding sint_decoding_size)
  then show ?thesis using eq by simp
qed

subsection \<open>The loop on the valid characters\<close>

lemma decoding_range: "x \<in> set decoding \<Longrightarrow> - 2 \<le> sint x \<and> sint x \<le> 63"
  by (auto simp add: decoding_def)

lemma decode_value_range:
  assumes "base64_decode_value c = Inr v"
  shows "- 2 \<le> v \<and> v \<le> 63"
proof (cases "sint (c - 43) < 0 \<or> sint (c - 43) > sint decoding_size")
  case True
  then show ?thesis using assms by (simp add: base64_decode_value_def Let_def)
next
  case False
  then have "nat (sint (c - 43)) < length decoding"
    and "v = sint (decoding ! nat (sint (c - 43)))"
    using assms by (auto simp add: base64_decode_value_def Let_def split: if_splits)
  then show ?thesis using decoding_range [OF nth_mem] by blast
qed

lemma sint_fragment:
  assumes "- 2 \<le> v" "v \<le> 63"
  shows "sint (word_of_int v :: cchar) = v"
proof -
  have "sint (word_of_int v :: cchar) = signed_take_bit (LENGTH(8) - 1) v"
    by (simp only: sint_sbintrunc')
  also have "\<dots> = v"
    using assms by (intro signed_take_bit_int_eq_self) simp_all
  finally show ?thesis .
qed

lemma decode_value_Inr: "c \<noteq> 123 \<Longrightarrow> \<exists>v. base64_decode_value c = Inr v"
proof (cases "base64_decode_value c")
  case (Inl e)
  then have "e = OutOfBounds"
    by (simp add: base64_decode_value_def Let_def split: if_splits)
  then have "c = 123" using Inl decode_value_out_of_bounds [of c] by simp
  moreover assume "c \<noteq> 123"
  ultimately show ?thesis by simp
next
  case (Inr v)
  then show ?thesis by blast
qed

lemma decode_loop_invalid:
  assumes "c \<noteq> 123" "\<not> valid_char c"
  shows "decode_loop st (c # cs) buf p = decode_loop st cs buf p"
proof -
  obtain v where v: "base64_decode_value c = Inr v"
    using decode_value_Inr [OF assms(1)] by blast
  then have "v < 0" using assms(2) by (simp add: valid_char_def)
  moreover have "sint (word_of_int v :: cchar) = v"
    using decode_value_range [OF v] by (intro sint_fragment) simp_all
  ultimately show ?thesis using v by (simp add: Let_def)
qed

lemma decode_loop_valid:
  assumes "valid_char c"
  shows "decode_loop st (c # cs) buf p =
     (case decode_fragment st (frag c) buf p of
        Inl e \<Rightarrow> Inl e
      | Inr (st', buf', p') \<Rightarrow> decode_loop st' cs buf' p')"
proof -
  obtain v where v: "base64_decode_value c = Inr v" and "0 \<le> v"
    using assms by (auto simp add: valid_char_def split: sum.splits)
  moreover have "sint (word_of_int v :: cchar) = v"
    using decode_value_range [OF v] by (intro sint_fragment) simp_all
  ultimately show ?thesis by (simp add: Let_def frag_def)
qed

lemma decode_loop_brace: "decode_loop st (123 # cs) buf p = Inl OutOfBounds"
  using decode_value_out_of_bounds [of 123] by simp

lemma only_out_of_bounds:
  "load buf p = Inl e \<Longrightarrow> e = OutOfBounds"
  "store buf p v = Inl e \<Longrightarrow> e = OutOfBounds"
  "or_store buf p v = Inl e \<Longrightarrow> e = OutOfBounds"
  by (simp_all add: load_def store_def or_store_def split: if_splits)

lemma decode_fragment_error: "decode_fragment st f buf p = Inl e \<Longrightarrow> e = OutOfBounds"
proof (cases st)
  case step_a
  then show "decode_fragment st f buf p = Inl e \<Longrightarrow> e = OutOfBounds"
    by (auto split: sum.splits dest: only_out_of_bounds)
next
  case step_b
  then show "decode_fragment st f buf p = Inl e \<Longrightarrow> e = OutOfBounds"
    by (auto split: sum.splits dest: only_out_of_bounds)
next
  case step_c
  then show "decode_fragment st f buf p = Inl e \<Longrightarrow> e = OutOfBounds"
    by (auto split: sum.splits dest: only_out_of_bounds)
next
  case step_d
  then show "decode_fragment st f buf p = Inl e \<Longrightarrow> e = OutOfBounds"
    by (auto split: sum.splits dest: only_out_of_bounds)
qed

lemma decode_loop_with_brace:
  "123 \<in> set cs \<Longrightarrow> decode_loop st cs buf p = Inl OutOfBounds"
proof (induction cs arbitrary: st buf p)
  case Nil
  then show ?case by simp
next
  case (Cons c cs)
  consider "c = 123" | "c \<noteq> 123" "\<not> valid_char c" | "c \<noteq> 123" "valid_char c" by blast
  then show ?case
  proof cases
    case 1
    then show ?thesis by (simp only: decode_loop_brace)
  next
    case 2
    then have "123 \<in> set cs" using Cons.prems by simp
    then show ?thesis using Cons.IH by (simp only: decode_loop_invalid [OF 2])
  next
    case 3
    then have cs: "123 \<in> set cs" using Cons.prems by simp
    show ?thesis
    proof (cases "decode_fragment st (frag c) buf p")
      case (Inl e')
      then show ?thesis
        using decode_fragment_error [OF Inl]
        by (simp only: decode_loop_valid [OF 3(2)] sum.case)
    next
      case (Inr r)
      obtain st' buf' p' where r: "r = (st', buf', p')" by (cases r)
      show ?thesis
        using Cons.IH [OF cs, of st' buf' p']
        by (simp only: decode_loop_valid [OF 3(2)] Inr r sum.case prod.case)
    qed
  qed
qed

lemma decode_loop_fragments:
  "123 \<notin> set cs \<Longrightarrow> decode_loop st cs buf p = decode_frags st (fragments cs) buf p"
proof (induction cs arbitrary: st buf p)
  case Nil
  show ?case by (simp add: fragments_def)
next
  case (Cons c cs)
  then have c: "c \<noteq> 123" and cs: "123 \<notin> set cs" by auto
  show ?case
  proof (cases "valid_char c")
    case True
    then have "fragments (c # cs) = frag c # fragments cs" by (simp add: fragments_def)
    then show ?thesis
      using Cons.IH [OF cs]
      by (simp only: decode_loop_valid [OF True] decode_frags.simps)
  next
    case False
    then have "fragments (c # cs) = fragments cs" by (simp add: fragments_def)
    then show ?thesis
      using Cons.IH [OF cs] by (simp only: decode_loop_invalid [OF c False])
  qed
qed

subsection \<open>The bytes written and the bounds of the buffer\<close>

lemma length_bytes_of: "length (bytes_of fs) = (3 * length fs) div 4"
  by (induction fs rule: bytes_of.induct) simp_all

lemma decode_frags_0:
  "decode_frags step_a [] buf p =
     (if p < length buf then Inr (p, buf, \<lparr>dstep = step_a, plainchar = buf ! p\<rparr>)
      else Inl OutOfBounds)"
  by (simp add: load_def)

lemma decode_frags_1:
  "decode_frags step_a [f1] buf p =
     (if p < length buf
      then Inr (p, buf[p := push_bit 2 (f1 AND 0x3f)],
                \<lparr>dstep = step_b, plainchar = push_bit 2 (f1 AND 0x3f)\<rparr>)
      else Inl OutOfBounds)"
  by (simp add: load_def store_def)

lemma decode_frags_2:
  "decode_frags step_a [f1, f2] buf p =
     (if p + 1 < length buf
      then Inr (p + 1, buf[p := byte1 f1 f2, p + 1 := push_bit 4 (f2 AND 0x0f)],
                \<lparr>dstep = step_c, plainchar = push_bit 4 (f2 AND 0x0f)\<rparr>)
      else Inl OutOfBounds)"
  by (simp add: load_def store_def or_store_def byte1_def)

lemma decode_frags_3:
  "decode_frags step_a [f1, f2, f3] buf p =
     (if p + 2 < length buf
      then Inr (p + 2,
                buf[p := byte1 f1 f2, p + 1 := byte2 f2 f3, p + 2 := push_bit 6 (f3 AND 0x03)],
                \<lparr>dstep = step_d, plainchar = push_bit 6 (f3 AND 0x03)\<rparr>)
      else Inl OutOfBounds)"
  by (simp add: load_def store_def or_store_def byte1_def byte2_def)

lemma decode_frags_4:
  "decode_frags step_a (f1 # f2 # f3 # f4 # fs) buf p =
     (if p + 2 < length buf
      then decode_frags step_a fs
             (buf[p := byte1 f1 f2, p + 1 := byte2 f2 f3, p + 2 := byte3 f3 f4]) (p + 3)
      else Inl OutOfBounds)"
  by (simp add: load_def store_def or_store_def byte1_def byte2_def byte3_def
      add.commute numeral_3_eq_3 del: decode_frags.simps(1))

lemma take_Suc_update:
  "p < length buf \<Longrightarrow> take (Suc p) (buf[p := x]) = take p buf @ [x]"
  by (simp add: take_Suc_conv_app_nth)

lemma take_Suc_Suc_update:
  "Suc p < length buf \<Longrightarrow>
   take (Suc (Suc p)) (buf[p := x, Suc p := y]) = take p buf @ [x, y]"
proof -
  assume p: "Suc p < length buf"
  have "take (Suc (Suc p)) (buf[p := x, Suc p := y]) = take (Suc p) (buf[p := x]) @ [y]"
    using p by (simp add: take_Suc_conv_app_nth [of "Suc p"])
  also have "\<dots> = take p buf @ [x, y]"
    using p by (simp add: take_Suc_update)
  finally show ?thesis .
qed

lemma take_update_3:
  "p + 2 < length buf \<Longrightarrow>
   take (p + 3) (buf[p := x, p + 1 := y, p + 2 := z]) = take p buf @ [x, y, z]"
proof -
  assume p: "p + 2 < length buf"
  have "take (Suc (Suc (Suc p))) (buf[p := x, Suc p := y, Suc (Suc p) := z]) =
      take (Suc (Suc p)) (buf[p := x, Suc p := y]) @ [z]"
    using p by (simp add: take_Suc_conv_app_nth [of "Suc (Suc p)"])
  also have "take (Suc (Suc p)) (buf[p := x, Suc p := y]) = take (Suc p) (buf[p := x]) @ [y]"
    using p by (simp add: take_Suc_conv_app_nth [of "Suc p"])
  also have "take (Suc p) (buf[p := x]) = take p buf @ [x]"
    using p by (simp add: take_Suc_update)
  finally show ?thesis by (simp add: numeral_3_eq_3)
qed

lemma decode_frags_ok:
  "p + length (bytes_of fs) < length buf \<Longrightarrow>
   \<exists>buf' st. decode_frags step_a fs buf p = Inr (p + length (bytes_of fs), buf', st) \<and>
     length buf' = length buf \<and>
     take (p + length (bytes_of fs)) buf' = take p buf @ bytes_of fs"
proof (induction fs arbitrary: buf p rule: bytes_of.induct)
  case (1 f1 f2 f3 f4 fs)
  let ?buf = "buf[p := byte1 f1 f2, p + 1 := byte2 f2 f3, p + 2 := byte3 f3 f4]"
  have p: "p + 2 < length buf" using "1.prems" by simp
  have "p + 3 + length (bytes_of fs) < length ?buf" using "1.prems" by simp
  from "1.IH" [OF this] obtain buf' st where rec:
    "decode_frags step_a fs ?buf (p + 3) = Inr (p + 3 + length (bytes_of fs), buf', st)"
    "length buf' = length ?buf"
    "take (p + 3 + length (bytes_of fs)) buf' = take (p + 3) ?buf @ bytes_of fs"
    by blast
  have "decode_frags step_a (f1 # f2 # f3 # f4 # fs) buf p =
      Inr (p + length (bytes_of (f1 # f2 # f3 # f4 # fs)), buf', st)"
    using p rec(1) by (simp only: decode_frags_4 if_True) (simp add: add.commute)
  moreover have "length buf' = length buf" using rec(2) by simp
  moreover have "take (p + length (bytes_of (f1 # f2 # f3 # f4 # fs))) buf' =
      take p buf @ bytes_of (f1 # f2 # f3 # f4 # fs)"
  proof -
    have eq: "p + length (bytes_of (f1 # f2 # f3 # f4 # fs)) = p + 3 + length (bytes_of fs)"
      by simp
    have "take (p + 3 + length (bytes_of fs)) buf' =
        take p buf @ bytes_of (f1 # f2 # f3 # f4 # fs)"
      using rec(3) by (simp only: take_update_3 [OF p]) simp
    then show ?thesis by (simp only: eq)
  qed
  ultimately show ?case by blast
next
  case (2 f1 f2 f3)
  then show ?case
    by (simp only: decode_frags_3) (simp add: take_Suc_Suc_update)
next
  case (3 f1 f2)
  then show ?case
    by (simp only: decode_frags_2) (simp add: take_Suc_update)
next
  case (4 f1)
  then show ?case
    by (simp only: decode_frags_1) simp
next
  case 5
  then show ?case
    by (simp only: decode_frags_0) simp
qed

lemma decode_frags_fail:
  "\<not> p + length (bytes_of fs) < length buf \<Longrightarrow>
   decode_frags step_a fs buf p = Inl OutOfBounds"
proof (induction fs arbitrary: buf p rule: bytes_of.induct)
  case (1 f1 f2 f3 f4 fs)
  let ?buf = "buf[p := byte1 f1 f2, p + 1 := byte2 f2 f3, p + 2 := byte3 f3 f4]"
  have "\<not> p + 3 + length (bytes_of fs) < length ?buf" using "1.prems" by simp
  from "1.IH" [OF this] show ?case
    by (simp only: decode_frags_4 split: if_splits) simp
next
  case (2 f1 f2 f3)
  then show ?case
    by (simp only: decode_frags_3) simp
next
  case (3 f1 f2)
  then show ?case
    by (simp only: decode_frags_2) simp
next
  case (4 f1)
  then show ?case
    by (simp only: decode_frags_1) simp
next
  case 5
  then show ?case
    by (simp only: decode_frags_0) simp
qed

subsection \<open>The one-shot decoder on inputs shorter than \<open>2 ^ 31\<close> characters\<close>

lemma buffer_size: "n < 2 ^ 31 \<Longrightarrow> size_t (size_t (n * 6) + 7) div 8 = (n * 6 + 7) div 8"
  by (simp add: size_t_def)

lemma bytes_fit:
  fixes k n :: nat
  shows "k \<le> n \<Longrightarrow> (3 * k) div 4 \<le> (n * 6 + 7) div 8"
  by linarith

lemma bytes_count:
  assumes "length fs \<le> n" "n < 2 ^ 31"
  shows "size_of_int (int_of_size (length (bytes_of fs))) = length (bytes_of fs)"
proof -
  have "n < 2147483648" using assms(2) by simp
  then have "(3 * length fs) div 4 < 2147483648" using assms(1) by linarith
  then have "length (bytes_of fs) < 2 ^ 31" by (simp add: length_bytes_of)
  then show ?thesis by (rule size_of_int_of_size)
qed

lemma length_fragments: "length (fragments cs) = length (filter valid_char cs)"
  by (simp add: fragments_def)

text \<open>
  What \<open>base64Decode\<close> returns: the bytes of the values of the valid characters, unless
  an access leaves the table or the buffer.
\<close>

lemma base64Decode_eq:
  assumes "length input < 2 ^ 31"
  shows "base64Decode input =
     (if 123 \<in> set input \<or>
         (length input * 6 + 7) div 8 \<le> length (bytes_of (fragments input))
      then Inl OutOfBounds
      else Inr (bytes_of (fragments input)))"
proof -
  let ?L = "(length input * 6 + 7) div 8" and ?fs = "fragments input"
  let ?buf = "replicate ?L (0 :: cchar)"
  have size: "heapArray (size_t (size_t (length input * 6) + 7) div 8) = ?buf"
    by (simp only: buffer_size [OF assms] heapArray_def)
  show ?thesis
  proof (cases "?L = 0")
    case True
    then show ?thesis
      unfolding base64Decode_def size Let_def
      by (simp add: base64_decode_block_def store_def)
  next
    case False
    then have "?buf[0 := 0] = ?buf"
      by (cases ?L) simp_all
    with False have block:
      "base64_decode_block input (int_of_size (length input)) ?buf base64_init_decodestate =
        (case decode_loop step_a input ?buf 0 of
           Inl e \<Rightarrow> Inl e
         | Inr (n, buf', s) \<Rightarrow> Inr (int_of_size n, buf', s))"
      by (simp add: base64_decode_block_def store_def base64_init_decodestate_def
          sint_int_of_size [OF assms])
    show ?thesis
    proof (cases "123 \<in> set input")
      case True
      then show ?thesis
        unfolding base64Decode_def size Let_def block
        by (simp add: decode_loop_with_brace)
    next
      case no_brace: False
      note loop = decode_loop_fragments [OF no_brace, of step_a ?buf 0]
      show ?thesis
      proof (cases "length (bytes_of ?fs) < ?L")
        case True
        then have "0 + length (bytes_of ?fs) < length ?buf" by simp
        from decode_frags_ok [OF this] obtain buf' st where ok:
          "decode_frags step_a ?fs ?buf 0 = Inr (length (bytes_of ?fs), buf', st)"
          "length buf' = ?L" "take (length (bytes_of ?fs)) buf' = bytes_of ?fs"
          by auto
        have "length ?fs \<le> length input" by (simp add: length_fragments)
        then have count:
          "size_of_int (int_of_size (length (bytes_of ?fs))) = length (bytes_of ?fs)"
          using assms by (rule bytes_count)
        show ?thesis
          unfolding base64Decode_def size Let_def block loop ok(1)
          using no_brace True ok(2,3) by (simp add: count)
      next
        case False
        then have "\<not> 0 + length (bytes_of ?fs) < length ?buf" by simp
        from decode_frags_fail [OF this] show ?thesis
          unfolding base64Decode_def size Let_def block loop
          using no_brace False by simp
      qed
    qed
  qed
qed

subsection \<open>The run in which the accesses next to the arrays go through\<close>

text \<open>
  Only the opening brace is looked up outside the table; on every other character the
  run consumes what \<open>valid_char\<close> says and takes the value of the table.
\<close>

lemma run_value:
  assumes "c \<noteq> 123"
  shows "consumed g c = valid_char c" "frag_run g c = frag c"
proof -
  obtain v where v: "base64_decode_value c = Inr v"
    using decode_value_Inr [OF assms] by blast
  have "sint (word_of_int v :: cchar) = v"
    using decode_value_range [OF v] by (intro sint_fragment) simp_all
  then show "consumed g c = valid_char c" "frag_run g c = frag c"
    using v by (simp_all add: consumed_def frag_run_def frag_def valid_char_def
        decode_value_run_def)
qed

lemma run_brace: "consumed g 123 = (0 \<le> sint g)" "frag_run g 123 = g"
  using decode_value_out_of_bounds [of 123]
  by (simp_all add: consumed_def frag_run_def decode_value_run_def)

lemma brace_invalid: "\<not> valid_char 123"
  using decode_value_out_of_bounds [of 123] by (simp add: valid_char_def)

lemma fragments_run_plain: "123 \<notin> set cs \<Longrightarrow> fragments_run g cs = fragments cs"
proof (induction cs)
  case Nil
  show ?case by (simp add: fragments_run_def fragments_def)
next
  case (Cons c cs)
  then have "c \<noteq> 123" and "fragments_run g cs = fragments cs" by auto
  then show ?case
    using run_value [of c g] by (simp add: fragments_run_def fragments_def)
qed

lemma decode_loop_run_fragments:
  "decode_loop_run g st cs buf p = decode_frags st (fragments_run g cs) buf p"
proof (induction cs arbitrary: st buf p)
  case Nil
  show ?case by (simp add: fragments_run_def)
next
  case (Cons c cs)
  show ?case
  proof (cases "consumed g c")
    case True
    then have "fragments_run g (c # cs) = frag_run g c # fragments_run g cs"
      by (simp add: fragments_run_def)
    moreover have "\<not> sint (word_of_int (decode_value_run g c) :: cchar) < 0"
      using True by (simp add: consumed_def)
    ultimately show ?thesis
      using Cons.IH by (simp add: Let_def frag_run_def split: sum.splits prod.splits)
  next
    case False
    then have "fragments_run g (c # cs) = fragments_run g cs"
      by (simp add: fragments_run_def)
    moreover have "sint (word_of_int (decode_value_run g c) :: cchar) < 0"
      using False by (simp add: consumed_def)
    ultimately show ?thesis
      using Cons.IH by (simp add: Let_def)
  qed
qed

text \<open>
  The run returns the bytes of the values it consumed: it never goes further than the
  byte after the buffer.
\<close>

lemma base64Decode_run_eq:
  assumes "length input < 2 ^ 31"
  shows "base64Decode_run g input = Inr (bytes_of (fragments_run g input))"
proof -
  let ?L = "(length input * 6 + 7) div 8" and ?fs = "fragments_run g input"
  let ?mem = "replicate (Suc ?L) (0 :: cchar)"
  have size: "size_t (size_t (length input * 6) + 7) div 8 = ?L"
    by (rule buffer_size [OF assms])
  have mem: "heapArray ?L @ [0] = ?mem"
    by (simp add: heapArray_def replicate_append_same)
  have k: "length ?fs \<le> length input" by (simp add: fragments_run_def)
  then have m: "length (bytes_of ?fs) \<le> ?L"
    unfolding length_bytes_of by (rule bytes_fit)
  then have "0 + length (bytes_of ?fs) < length ?mem" by simp
  from decode_frags_ok [OF this] obtain buf' st where ok:
    "decode_frags step_a ?fs ?mem 0 = Inr (length (bytes_of ?fs), buf', st)"
    "length buf' = Suc ?L" "take (length (bytes_of ?fs)) buf' = bytes_of ?fs"
    by auto
  have "?mem[0 := 0] = ?mem" by simp
  then have block:
    "base64_decode_block_run g input (int_of_size (length input)) ?mem base64_init_decodestate =
      Inr (int_of_size (length (bytes_of ?fs)), buf', st)"
    using ok(1)
    by (simp add: base64_decode_block_run_def store_def base64_init_decodestate_def
        sint_int_of_size [OF assms] decode_loop_run_fragments del: replicate_Suc)
  have count: "size_of_int (int_of_size (length (bytes_of ?fs))) = length (bytes_of ?fs)"
    using k assms by (rule bytes_count)
  have "take (length (bytes_of ?fs)) (take ?L buf') = bytes_of ?fs"
    using m ok(3) by (simp add: min_def)
  moreover have "length (bytes_of ?fs) = ?L \<Longrightarrow> take ?L buf' = bytes_of ?fs"
    using ok(3) by simp
  ultimately show ?thesis
    unfolding base64Decode_run_def size Let_def mem block
    using m ok(2) by (auto simp add: count)
qed

lemma fragments_run_consumed:
  "fragments_run g (filter (consumed g) cs) = fragments_run g cs"
  by (simp add: fragments_run_def)

text \<open>
  Where \<open>base64Decode\<close> returns, with every access inside the arrays, the run returns
  the same bytes.
\<close>

lemma base64Decode_run_agrees:
  assumes "length input < 2 ^ 31" and "base64Decode input = Inr bytes"
  shows "base64Decode_run g input = Inr bytes"
proof -
  have "123 \<notin> set input" and "bytes = bytes_of (fragments input)"
    using assms(2) by (simp_all add: base64Decode_eq [OF assms(1)] split: if_splits)
  then show ?thesis
    by (simp add: base64Decode_run_eq [OF assms(1)] fragments_run_plain)
qed

subsection \<open>The decoder on what the encoder writes\<close>





lemma fragments_append: "fragments (xs @ ys) = fragments xs @ fragments ys"
  by (simp add: fragments_def)
















subsection \<open>Where the decoder stays in bounds\<close>

lemma fragments_filter: "fragments (filter valid_char cs) = fragments cs"
  by (simp add: fragments_def)

lemma length_filter_all: "(length (filter P xs) = length xs) = list_all P xs"
proof (induction xs)
  case Nil
  show ?case by simp
next
  case (Cons x xs)
  have "length (filter P xs) \<le> length xs" by simp
  then have "length (filter P xs) \<noteq> Suc (length xs)" by linarith
  with Cons show ?case by simp
qed

lemma short_buffer_iff:
  fixes k n :: nat
  assumes "k \<le> n"
  shows "((n * 6 + 7) div 8 \<le> (3 * k) div 4) = (k = n \<and> n mod 4 = 0)"
proof (cases "k = n")
  case True
  obtain q r where n: "n = 4 * q + r" and r: "r < 4"
    using mod_less_divisor [of 4 n] mult_div_mod_eq [of 4 n] by (metis zero_less_numeral)
  have m: "n mod 4 = r" using r by (simp add: n)
  have "(n * 6 + 7) div 8 = 3 * q + (6 * r + 7) div 8"
  proof -
    have "n * 6 + 7 = 8 * (3 * q) + (6 * r + 7)" by (simp add: n)
    then show ?thesis by (simp only: div_mult_self4)
  qed
  moreover have "(3 * n) div 4 = 3 * q + (3 * r) div 4"
  proof -
    have "3 * n = 4 * (3 * q) + 3 * r" by (simp add: n)
    then show ?thesis by (simp only: div_mult_self4)
  qed
  moreover have "((6 * r + 7) div 8 \<le> (3 * r) div 4) = (r = 0)"
  proof -
    consider "r = 0" | "r = 1" | "r = 2" | "r = 3" using r by linarith
    then show ?thesis by cases simp_all
  qed
  ultimately show ?thesis using True m by simp
next
  case False
  then have "k + 1 \<le> n" using assms by simp
  then have "(3 * k) div 4 < (n * 6 + 7) div 8" by linarith
  then show ?thesis using False by simp
qed

text \<open>
  The inputs on which the one-shot decoder leaves its buffer or its table: those with an
  opening brace, and those that consist of valid characters only and whose length is a
  multiple of 4 (the empty string among them).
\<close>

lemma base64Decode_out_of_bounds_iff:
  assumes "length input < 2 ^ 31"
  shows "base64Decode input = Inl OutOfBounds \<longleftrightarrow>
     123 \<in> set input \<or> (list_all valid_char input \<and> length input mod 4 = 0)"
proof -
  have "length (filter valid_char input) \<le> length input" by simp
  from short_buffer_iff [OF this]
  have "((length input * 6 + 7) div 8 \<le> length (bytes_of (fragments input))) =
      (length (filter valid_char input) = length input \<and> length input mod 4 = 0)"
    by (simp only: length_bytes_of length_fragments)
  moreover have "(length (filter valid_char input) = length input) = list_all valid_char input"
    by (rule length_filter_all)
  ultimately show ?thesis
    by (simp add: base64Decode_eq [OF assms])
qed

text \<open>
  The bytes the run returns: \<open>floor(3 * k / 4)\<close> of them for \<open>k\<close> characters consumed,
  and the same as on the characters consumed alone. On an input without an opening brace
  the characters consumed are the valid ones.
\<close>

lemma base64Decode_run_length:
  assumes "length input < 2 ^ 31" and "base64Decode_run g input = Inr bytes"
  shows "length bytes = (3 * length (filter (consumed g) input)) div 4"
  using assms(2)
  by (auto simp add: base64Decode_run_eq [OF assms(1)] length_bytes_of fragments_run_def)

lemma base64Decode_run_filter:
  assumes "length input < 2 ^ 31"
  shows "base64Decode_run g (filter (consumed g) input) = base64Decode_run g input"
proof -
  have "length (filter (consumed g) input) \<le> length input" by simp
  then have "length (filter (consumed g) input) < 2 ^ 31" using assms by linarith
  then show ?thesis
    by (simp only: base64Decode_run_eq assms fragments_run_consumed)
qed

lemma consumed_plain: "123 \<notin> set cs \<Longrightarrow> filter (consumed g) cs = filter valid_char cs"
  by (induction cs) (auto simp add: run_value)

lemma base64Decode_run_plain:
  assumes "length input < 2 ^ 31" and "123 \<notin> set input"
  shows "base64Decode_run g (filter valid_char input) = base64Decode_run g input"
    and "\<exists>bytes. base64Decode_run g input = Inr bytes \<and>
           length bytes = (3 * length (filter valid_char input)) div 4"
proof -
  show "base64Decode_run g (filter valid_char input) = base64Decode_run g input"
    using base64Decode_run_filter [OF assms(1), of g] by (simp only: consumed_plain [OF assms(2)])
  show "\<exists>bytes. base64Decode_run g input = Inr bytes \<and>
           length bytes = (3 * length (filter valid_char input)) div 4"
    using base64Decode_run_length [OF assms(1), of g]
    by (simp add: base64Decode_run_eq [OF assms(1)] consumed_plain [OF assms(2)])
qed

text \<open>
  An opening brace is consumed exactly when the byte after the table is not negative,
  and its value is then that byte.
\<close>

lemma brace_run:
  "base64Decode_run g (cstr ''TW{u'') =
     (if 0 \<le> sint g then Inr [77, byte2 22 g, byte3 g 46] else Inr (cstr ''Mk''))"
proof -
  have "fragments_run g (cstr ''TW{u'') = 19 # 22 # (if 0 \<le> sint g then [g] else []) @ [46]"
    using decode_value_out_of_bounds [of 123]
    by (simp add: fragments_run_def consumed_def frag_run_def decode_value_run_def cstr_def)
       (simp add: base64_decode_value_def decoding_def decoding_size_def)
  moreover have "byte1 19 22 = 77" and "byte2 22 46 = 107"
    by (simp_all add: byte1_def byte2_def)
  ultimately have "bytes_of (fragments_run g (cstr ''TW{u'')) =
      (if 0 \<le> sint g then [77, byte2 22 g, byte3 g 46] else cstr ''Mk'')"
    by (simp add: cstr_def)
  moreover have "length (cstr ''TW{u'') < 2 ^ 31" by (simp add: cstr_def)
  ultimately show ?thesis by (simp add: base64Decode_run_eq)
qed

subsection \<open>The claims about the decoder\<close>

text \<open>
  Claim C3 fails on the code. The table has 80 entries, indices 0 to 79. For the character
  with code 123 (the opening brace) the index is 80; the test
  \<open>value_in > decoding_size\<close> lets it pass and \<open>decoding[80]\<close> is read, one entry past
  the end of the table.
\<close>

theorem decode_value_brace:
  "length decoding = 80 \<and> sint ((123 :: cchar) - 43) = 80 \<and> sint decoding_size = 80 \<and>
   base64_decode_value 123 = Inl OutOfBounds"
  by (simp add: base64_decode_value_def length_decoding sint_decoding_size)


text \<open>
  Claim C4 fails on the code. On the empty string the output buffer has no bytes and the
  first statement of \<open>base64_decode_block\<close>, \<open>*plainchar = state_in->plainchar\<close>, stores
  at its index 0. On four valid characters the buffer has 3 bytes, all three are written,
  and the exit at the end of the input loads \<open>*plainchar\<close> at index 3. On an opening brace
  the table is read at index 80. Among the inputs shorter than \<open>2 ^ 31\<close> characters
  these are all the inputs of that kind (\<open>base64Decode_out_of_bounds_iff\<close>): the decoder
  stays within its buffer and its table on every other one.
\<close>

theorem decode_out_of_bounds:
  "base64Decode (cstr '''') = Inl OutOfBounds \<and>
   base64Decode (cstr ''AAAA'') = Inl OutOfBounds \<and>
   base64Decode (cstr ''{'') = Inl OutOfBounds"
proof -
  have "valid_char 65"
    by (simp add: valid_char_def base64_decode_value_def decoding_def decoding_size_def)
  then show ?thesis
    by (simp add: base64Decode_out_of_bounds_iff cstr_def)
qed




text \<open>
  Claim C7 fails on the code. The opening brace maps to no value of six bits: it has no
  entry in the table. But \<open>base64_decode_value\<close> reads \<open>decoding[80]\<close> for it (claim C3,
  and \<open>OutOfBounds\<close> where that access ends the run),
  and when the byte found there is not negative the decoder consumes the brace with that
  byte as its value instead of skipping it. With 80 after the table (the value of
  \<open>decoding_size\<close>, declared next to the table) "TW{u" decodes to three bytes, and with 1
  to three other bytes, where its valid characters "TWu" decode to the two bytes of "Mk".
  The examples of the claim hold: "T!W@F#u" and "TWFu" both decode to "Man", and "TWFu",
  a newline and "bg==" decode to "Mann". On every input shorter than \<open>2 ^ 31\<close> characters
  and without an opening brace the claim holds (\<open>base64Decode_run_plain\<close>).
\<close>

theorem brace_not_skipped:
  "filter valid_char (cstr ''TW{u'') = cstr ''TWu'' \<and>
   base64Decode (cstr ''TW{u'') = Inl OutOfBounds \<and>
   base64Decode_run 80 (cstr ''TWu'') = Inr (cstr ''Mk'') \<and>
   base64Decode_run 80 (cstr ''TW{u'') = Inr [77, 100, 46] \<and>
   base64Decode_run 1 (cstr ''TWu'') = Inr (cstr ''Mk'') \<and>
   base64Decode_run 1 (cstr ''TW{u'') = Inr [77, 96, 110] \<and>
   base64Decode_run 80 (cstr ''T!W@F#u'') = Inr (cstr ''Man'') \<and>
   base64Decode_run 80 (cstr ''TWFu'') = Inr (cstr ''Man'') \<and>
   base64Decode_run 80 (cstr ''TWFu'' @ [newline] @ cstr ''bg=='') = Inr (cstr ''Mann'')"
proof -
  have "filter valid_char (cstr ''TW{u'') = cstr ''TWu''"
    and "bytes_of (fragments_run 80 (cstr ''TWu'')) = cstr ''Mk''"
    and "bytes_of (fragments_run 80 (cstr ''TW{u'')) = [77, 100, 46]"
    and "bytes_of (fragments_run 1 (cstr ''TWu'')) = cstr ''Mk''"
    and "bytes_of (fragments_run 1 (cstr ''TW{u'')) = [77, 96, 110]"
    and "bytes_of (fragments_run 80 (cstr ''T!W@F#u'')) = cstr ''Man''"
    and "bytes_of (fragments_run 80 (cstr ''TWFu'')) = cstr ''Man''"
    and "bytes_of (fragments_run 80 (cstr ''TWFu'' @ [newline] @ cstr ''bg=='')) = cstr ''Mann''"
    by code_simp+
  moreover have "base64Decode (cstr ''TW{u'') = Inl OutOfBounds"
    by (simp add: base64Decode_out_of_bounds_iff cstr_def)
  ultimately show ?thesis
    by (simp add: base64Decode_run_eq cstr_def)
qed

text \<open>
  Claim C10 fails on the code, by the same defect. "{{{{" has no character that maps to a
  value of six bits, so no byte is claimed; with 80 or with 1 after the table the decoder
  consumes the four braces and returns three bytes. On every input shorter than
  \<open>2 ^ 31\<close> characters and without an opening brace the decoder returns the claimed
  number of bytes (\<open>base64Decode_run_plain\<close>), and a single valid character gives no
  byte.
\<close>

theorem braces_counted:
  "length (filter valid_char (cstr ''{{{{'')) = 0 \<and>
   base64Decode_run 80 (cstr ''{{{{'') = Inr [65, 4, 16] \<and>
   base64Decode_run 1 (cstr ''{{{{'') = Inr [4, 16, 65] \<and>
   length (filter valid_char (cstr ''TWFuT'')) = 5 \<and>
   base64Decode_run 80 (cstr ''TWFuT'') = Inr (cstr ''Man'')"
proof -
  have "length (filter valid_char (cstr ''{{{{'')) = 0"
    and "bytes_of (fragments_run 80 (cstr ''{{{{'')) = [65, 4, 16]"
    and "bytes_of (fragments_run 1 (cstr ''{{{{'')) = [4, 16, 65]"
    and "length (filter valid_char (cstr ''TWFuT'')) = 5"
    and "bytes_of (fragments_run 80 (cstr ''TWFuT'')) = cstr ''Man''"
    by code_simp+
  then show ?thesis
    by (simp add: base64Decode_run_eq cstr_def)
qed

end
